theory Spec2Isabelle
  imports Main "HOL-Library.Word"
begin

unbundle bit_operations_syntax

section \<open>Values, buffers and errors\<close>

text \<open>
  A Node.js \<open>Buffer\<close> is a fixed-length sequence of bytes; a JavaScript string is a
  sequence of UTF-16 code units. JavaScript numbers that the encoder handles are
  integers (ports, lengths, offsets), modelled as \<open>int\<close>. A \<open>throw\<close> is the \<open>Inl\<close>
  branch of a sum.
\<close>

type_synonym byte = "8 word"
type_synonym buffer = "byte list"
type_synonym jsstring = "16 word list"

datatype error =
    ERR_OUT_OF_RANGE
  | TypeError
  | ProtocolStatusError int int
  | VersionRangeError
  | MalformedFrameError

definition andThen :: "error + 'a \<Rightarrow> ('a \<Rightarrow> error + 'b) \<Rightarrow> error + 'b" where
  "andThen r f = (case r of Inl e \<Rightarrow> Inl e | Inr x \<Rightarrow> f x)"

section \<open>src/protocol/constants.js\<close>

definition KILL_REQ :: int where "KILL_REQ = 107"
definition DUMP_REQ :: int where "DUMP_REQ = 100"
definition NAMES_REQ :: int where "NAMES_REQ = 110"
definition PORT2_RESP :: int where "PORT2_RESP = 119"
definition ALIVE2_REQ :: int where "ALIVE2_REQ = 120"
definition ALIVE_RESP :: int where "ALIVE_RESP = 121"
definition ALIVE2_X_RESP :: int where "ALIVE2_X_RESP = 118"
definition PORT_PLEASE2_REQ :: int where "PORT_PLEASE2_REQ = 122"

definition NODE_TYPE_NORMAL :: int where "NODE_TYPE_NORMAL = 77"
definition NODE_TYPE_HIDDEN :: int where "NODE_TYPE_HIDDEN = 72"
definition PROTOCOL_IPV4 :: int where "PROTOCOL_IPV4 = 0"
definition HIGHEST_VERSION :: int where "HIGHEST_VERSION = 6"
definition LOWEST_VERSION :: int where "LOWEST_VERSION = 5"

section \<open>UTF-8 encoding of a JavaScript string\<close>

text \<open>
  \<open>utf8_chars s\<close> lists, character by character, the bytes Node writes for \<open>s\<close> under
  the \<open>'utf8'\<close> encoding: one to three bytes for a code unit outside the surrogate
  range, four bytes for a high surrogate followed by a low one, and the three bytes of
  U+FFFD for a surrogate that stands alone.
\<close>

definition is_high_surrogate :: "16 word \<Rightarrow> bool" where
  "is_high_surrogate u \<longleftrightarrow> 0xD800 \<le> u \<and> u \<le> 0xDBFF"

definition is_low_surrogate :: "16 word \<Rightarrow> bool" where
  "is_low_surrogate u \<longleftrightarrow> 0xDC00 \<le> u \<and> u \<le> 0xDFFF"

definition utf8_1 :: "nat \<Rightarrow> byte list" where
  "utf8_1 c = [of_nat c]"

definition utf8_2 :: "nat \<Rightarrow> byte list" where
  "utf8_2 c = [of_nat (0xC0 + c div 64), of_nat (0x80 + c mod 64)]"

definition utf8_3 :: "nat \<Rightarrow> byte list" where
  "utf8_3 c = [of_nat (0xE0 + c div 4096), of_nat (0x80 + c div 64 mod 64),
               of_nat (0x80 + c mod 64)]"

definition utf8_4 :: "nat \<Rightarrow> byte list" where
  "utf8_4 c = [of_nat (0xF0 + c div 262144), of_nat (0x80 + c div 4096 mod 64),
               of_nat (0x80 + c div 64 mod 64), of_nat (0x80 + c mod 64)]"

definition surrogate_pair :: "16 word \<Rightarrow> 16 word \<Rightarrow> nat" where
  "surrogate_pair h l = 0x10000 + (unat h - 0xD800) * 1024 + (unat l - 0xDC00)"

fun utf8_chars :: "jsstring \<Rightarrow> byte list list" where
  "utf8_chars [] = []"
| "utf8_chars [u] =
     (if u < 0x80 then [utf8_1 (unat u)]
      else if u < 0x800 then [utf8_2 (unat u)]
      else if is_high_surrogate u \<or> is_low_surrogate u then [utf8_3 0xFFFD]
      else [utf8_3 (unat u)])"
| "utf8_chars (u # v # us) =
     (if u < 0x80 then utf8_1 (unat u) # utf8_chars (v # us)
      else if u < 0x800 then utf8_2 (unat u) # utf8_chars (v # us)
      else if is_high_surrogate u \<and> is_low_surrogate v
        then utf8_4 (surrogate_pair u v) # utf8_chars us
      else if is_high_surrogate u \<or> is_low_surrogate u
        then utf8_3 0xFFFD # utf8_chars (v # us)
      else utf8_3 (unat u) # utf8_chars (v # us))"

definition utf8 :: "jsstring \<Rightarrow> buffer" where
  "utf8 s = concat (utf8_chars s)"

section \<open>The Buffer operations the encoder calls\<close>

text \<open>
  Each operation that mutates a buffer in place returns the buffer after the call. The
  range checks are those of Node: a value that does not fit the field, or an offset
  outside the buffer, throws. Allocation is bounded below only (the platform's upper
  limit on a buffer's size is not part of the model).
\<close>

definition overwrite :: "buffer \<Rightarrow> nat \<Rightarrow> byte list \<Rightarrow> buffer" where
  "overwrite buf off bs = take off buf @ bs @ drop (off + length bs) buf"

definition Buffer_alloc :: "int \<Rightarrow> error + buffer" where
  "Buffer_alloc n =
     (if n < 0 then Inl ERR_OUT_OF_RANGE else Inr (replicate (nat n) 0))"

definition Buffer_byteLength :: "jsstring \<Rightarrow> int" where
  "Buffer_byteLength s = int (length (utf8 s))"

definition writeUInt8 :: "buffer \<Rightarrow> int \<Rightarrow> int \<Rightarrow> error + buffer" where
  "writeUInt8 buf v offset =
     (if v < 0 \<or> v > 255 then Inl ERR_OUT_OF_RANGE
      else if offset < 0 \<or> offset + 1 > int (length buf) then Inl ERR_OUT_OF_RANGE
      else Inr (overwrite buf (nat offset) [of_int v]))"

definition writeUInt16BE :: "buffer \<Rightarrow> int \<Rightarrow> int \<Rightarrow> error + buffer" where
  "writeUInt16BE buf v offset =
     (if v < 0 \<or> v > 65535 then Inl ERR_OUT_OF_RANGE
      else if offset < 0 \<or> offset + 2 > int (length buf) then Inl ERR_OUT_OF_RANGE
      else Inr (overwrite buf (nat offset) [of_int (v div 256), of_int (v mod 256)]))"

text \<open>
  \<open>buf.write(string, offset)\<close>: the offset may be anything from 0 to the length of the
  buffer; the string is written in UTF-8 as far as whole characters fit in the space
  that remains.
\<close>

fun fit :: "nat \<Rightarrow> byte list list \<Rightarrow> byte list list" where
  "fit n [] = []"
| "fit n (c # cs) = (if length c \<le> n then c # fit (n - length c) cs else [])"

definition Buffer_write :: "buffer \<Rightarrow> jsstring \<Rightarrow> int \<Rightarrow> error + buffer" where
  "Buffer_write buf s offset =
     (if offset < 0 \<or> offset > int (length buf) then Inl ERR_OUT_OF_RANGE
      else Inr (overwrite buf (nat offset)
                  (concat (fit (length buf - nat offset) (utf8_chars s)))))"

text \<open>
  \<open>source.copy(target, targetStart, sourceStart)\<close> copies as many bytes as both the
  source and the target have room for, and nothing when \<open>targetStart\<close> is at or beyond
  the end of the target.
\<close>

definition Buffer_copy :: "buffer \<Rightarrow> buffer \<Rightarrow> int \<Rightarrow> int \<Rightarrow> error + buffer" where
  "Buffer_copy source target targetStart sourceStart =
     (if targetStart < 0 then Inl ERR_OUT_OF_RANGE
      else if sourceStart < 0 \<or> sourceStart > int (length source) then Inl ERR_OUT_OF_RANGE
      else if targetStart \<ge> int (length target) \<or> sourceStart \<ge> int (length source)
        then Inr target
      else Inr (overwrite target (nat targetStart)
                  (take (length target - nat targetStart) (drop (nat sourceStart) source))))"

text \<open>\<open>target.set(source, offset)\<close> throws when the source does not fit at the offset.\<close>

definition Buffer_set :: "buffer \<Rightarrow> buffer \<Rightarrow> int \<Rightarrow> error + buffer" where
  "Buffer_set target source offset =
     (if offset < 0 \<or> offset + int (length source) > int (length target)
        then Inl ERR_OUT_OF_RANGE
      else Inr (overwrite target (nat offset) source))"

section \<open>src/protocol/encoder.js\<close>

definition requestWrapper :: "buffer \<Rightarrow> error + buffer" where
  "requestWrapper req =
     (let baseLength = 2 in
      andThen (Buffer_alloc (baseLength + int (length req))) (\<lambda>buf.
      andThen (writeUInt16BE buf (int (length req)) 0) (\<lambda>buf.
      andThen (Buffer_copy req buf 2 0) (\<lambda>buf.
      Inr buf))))"

definition alive2Request :: "int \<Rightarrow> jsstring \<Rightarrow> error + buffer" where
  "alive2Request port nodeName =
     (let nodeLength = Buffer_byteLength nodeName in
      andThen (Buffer_alloc 0) (\<lambda>extra.
      let len = 1 + 2 + 1 + 1 + 2 + 2 + 2 + nodeLength + 2 + int (length extra) in
      andThen (Buffer_alloc len) (\<lambda>buff.
      andThen (writeUInt8 buff ALIVE2_REQ 0) (\<lambda>buff.
      andThen (writeUInt16BE buff port 1) (\<lambda>buff.
      andThen (writeUInt8 buff NODE_TYPE_NORMAL 3) (\<lambda>buff.
      andThen (writeUInt8 buff PROTOCOL_IPV4 4) (\<lambda>buff.
      andThen (writeUInt16BE buff 6 5) (\<lambda>buff.
      andThen (writeUInt16BE buff 5 7) (\<lambda>buff.
      andThen (writeUInt16BE buff nodeLength 9) (\<lambda>buff.
      andThen (Buffer_write buff nodeName 11) (\<lambda>buff.
      andThen (writeUInt16BE buff (int (length extra)) (11 + nodeLength)) (\<lambda>buff.
      andThen (Buffer_set buff extra (13 + nodeLength)) (\<lambda>buff.
      Inr buff)))))))))))))"

definition portPleaseRequest :: "jsstring \<Rightarrow> error + buffer" where
  "portPleaseRequest nodeName =
     (let baseLength = 2;
          nameLength = Buffer_byteLength nodeName - 1 in
      andThen (Buffer_alloc (baseLength + nameLength)) (\<lambda>req.
      let offset = 0 in
      andThen (writeUInt8 req PORT_PLEASE2_REQ offset) (\<lambda>req.
      let offset = 1 in
      andThen (Buffer_write req nodeName offset) (\<lambda>req.
      Inr req))))"

definition namesRequest :: "error + buffer" where
  "namesRequest =
     andThen (Buffer_alloc 1) (\<lambda>req.
     andThen (writeUInt8 req NAMES_REQ 0) (\<lambda>req.
     Inr req))"

definition dumpRequest :: "error + buffer" where
  "dumpRequest =
     andThen (Buffer_alloc 1) (\<lambda>req.
     andThen (writeUInt8 req DUMP_REQ 0) (\<lambda>req.
     Inr req))"

definition killRequest :: "error + buffer" where
  "killRequest =
     andThen (Buffer_alloc 1) (\<lambda>req.
     andThen (writeUInt8 req KILL_REQ 0) (\<lambda>req.
     Inr req))"

section \<open>src/test/decoder.js: the frames the tests build\<close>

definition createAliveResp :: "int \<Rightarrow> error + buffer" where
  "createAliveResp responseCode =
     andThen (Buffer_alloc 4) (\<lambda>buf.
     andThen (writeUInt8 buf ALIVE_RESP 0) (\<lambda>buf.
     andThen (writeUInt8 buf responseCode 1) (\<lambda>buf.
     andThen (writeUInt16BE buf 1 2) (\<lambda>buf.
     Inr buf))))"

definition createPort2Resp :: "int \<Rightarrow> jsstring \<Rightarrow> int \<Rightarrow> int \<Rightarrow> int \<Rightarrow> error + buffer" where
  "createPort2Resp responseCode nodeName portNo highestVersion lowestVersion =
     (let nodeLength = Buffer_byteLength nodeName in
      andThen (Buffer_alloc (14 + nodeLength)) (\<lambda>buf.
      let offset = 0 in
      andThen (writeUInt8 buf PORT2_RESP offset) (\<lambda>buf.
      let offset = offset + 1 in
      andThen (writeUInt8 buf responseCode offset) (\<lambda>buf.
      let offset = offset + 1 in
      andThen (writeUInt16BE buf portNo offset) (\<lambda>buf.
      let offset = offset + 2 in
      andThen (writeUInt8 buf NODE_TYPE_NORMAL offset) (\<lambda>buf.
      let offset = offset + 1 in
      andThen (writeUInt8 buf PROTOCOL_IPV4 offset) (\<lambda>buf.
      let offset = offset + 1 in
      andThen (writeUInt16BE buf highestVersion offset) (\<lambda>buf.
      let offset = offset + 2 in
      andThen (writeUInt16BE buf lowestVersion offset) (\<lambda>buf.
      let offset = offset + 2 in
      andThen (writeUInt16BE buf nodeLength offset) (\<lambda>buf.
      let offset = offset + 2 in
      andThen (Buffer_write buf nodeName offset) (\<lambda>buf.
      let offset = offset + nodeLength in
      andThen (writeUInt16BE buf 0 offset) (\<lambda>buf.
      Inr buf))))))))))))"

text \<open>\<open>nodes.join('\n')\<close>, then \<open>Buffer.from(..., 'utf8')\<close>.\<close>

fun join_lines :: "jsstring list \<Rightarrow> jsstring" where
  "join_lines [] = []"
| "join_lines [l] = l"
| "join_lines (l # m # ls) = l @ 0x0A # join_lines (m # ls)"

definition createNamesOrDumpResp :: "jsstring list \<Rightarrow> buffer" where
  "createNamesOrDumpResp nodes = utf8 (join_lines nodes)"

section \<open>Decoded values\<close>

text \<open>
  What \<open>decode\<close> hands back, as the tests and the client read it: a binary response is
  an object with a \<open>code\<close> (the opcode it came with) and a \<open>data\<close> part; a text
  listing is an array of entries with a name, a port and, in a dump, a file descriptor.
  The client also tests the result against \<open>false\<close>.
\<close>

record port2_data =
  data_port :: int
  data_nodeType :: int
  data_protocol :: int
  data_highestVersion :: int
  data_lowestVersion :: int
  data_name :: jsstring
  data_extra :: buffer

datatype response_data =
    AliveData (creation: buffer)
  | NodeData port2_data

record node_entry =
  entry_name :: jsstring
  entry_port :: int
  entry_fd :: "int option"

datatype decoded =
    DFalse
  | DResponse int response_data
  | DNodeList "node_entry list"

text \<open>\<open>resp.code\<close>: the opcode of a binary response, \<open>undefined\<close> on anything else.\<close>

fun code_of :: "decoded \<Rightarrow> int option" where
  "code_of (DResponse k d) = Some k"
| "code_of DFalse = None"
| "code_of (DNodeList es) = None"

section \<open>Regular expressions as JavaScript matches them\<close>

text \<open>
  The constructs \<open>NODE_REGEXP\<close> uses: literal characters (compared without regard to
  case, as under the \<open>i\<close> flag), \<open>.\<close>, \<open>\s\<close>, \<open>\d\<close>, a negated class, greedy
  \<open>*\<close>, \<open>+\<close> and \<open>?\<close>, and capture groups. \<open>run r st\<close> lists the states a
  backtracking matcher can reach from \<open>st\<close> after matching \<open>r\<close>, in the order it tries
  them, so the head of the list is the match JavaScript reports. A state is the input
  that remains together with the captures made so far.
\<close>

datatype atom = Lit "16 word" | Dot | WhiteSpace | Digit | NoneOf "atom list"

text \<open>
  Under the \<open>i\<close> flag two code units match when their upper-case forms agree. The
  literals of \<open>NODE_REGEXP\<close> are ASCII, and no code unit beyond ASCII has an ASCII
  upper-case form for this purpose, so upper-casing the ASCII letters is all that
  matters.
\<close>

definition canonicalize :: "16 word \<Rightarrow> 16 word" where
  "canonicalize c = (if 0x61 \<le> c \<and> c \<le> 0x7A then c - 0x20 else c)"

definition is_line_terminator :: "16 word \<Rightarrow> bool" where
  "is_line_terminator c \<longleftrightarrow> c = 0x0A \<or> c = 0x0D \<or> c = 0x2028 \<or> c = 0x2029"

definition is_white_space :: "16 word \<Rightarrow> bool" where
  "is_white_space c \<longleftrightarrow>
     (0x09 \<le> c \<and> c \<le> 0x0D) \<or> c = 0x20 \<or> c = 0xA0 \<or> c = 0x1680
     \<or> (0x2000 \<le> c \<and> c \<le> 0x200A) \<or> c = 0x2028 \<or> c = 0x2029 \<or> c = 0x202F
     \<or> c = 0x205F \<or> c = 0x3000 \<or> c = 0xFEFF"

fun atom_matches :: "atom \<Rightarrow> 16 word \<Rightarrow> bool" where
  "atom_matches (Lit a) c \<longleftrightarrow> canonicalize a = canonicalize c"
| "atom_matches Dot c \<longleftrightarrow> \<not> is_line_terminator c"
| "atom_matches WhiteSpace c \<longleftrightarrow> is_white_space c"
| "atom_matches Digit c \<longleftrightarrow> 0x30 \<le> c \<and> c \<le> 0x39"
| "atom_matches (NoneOf as) c \<longleftrightarrow> \<not> list_ex (\<lambda>a. atom_matches a c) as"

datatype regex =
    Empty
  | Atom atom
  | Then regex regex
  | Star regex
  | Opt regex
  | Group nat regex

type_synonym captures = "(nat \<times> jsstring) list"
type_synonym mstate = "jsstring \<times> captures"

fun run :: "regex \<Rightarrow> mstate \<Rightarrow> mstate list" where
  "run Empty st = [st]"
| "run (Atom a) st =
     (case fst st of [] \<Rightarrow> [] | c # cs \<Rightarrow> if atom_matches a c then [(cs, snd st)] else [])"
| "run (Then r1 r2) st = concat (map (run r2) (run r1 st))"
| "run (Star r) st =
     concat (map (run (Star r))
               (filter (\<lambda>st'. length (fst st') < length (fst st)) (run r st))) @ [st]"
| "run (Opt r) st = run r st @ [st]"
| "run (Group k r) st =
     map (\<lambda>st'. (fst st', (k, take (length (fst st) - length (fst st')) (fst st)) # snd st'))
       (run r st)"

text \<open>
  The equation for \<open>Star\<close> calls \<open>run\<close> on the same expression again, so it is
  applied by hand where an input is not a literal.
\<close>

declare run.simps(4) [simp del]

text \<open>The groups that every match of an expression has captured.\<close>

fun mandatory :: "regex \<Rightarrow> nat set" where
  "mandatory Empty = {}"
| "mandatory (Atom a) = {}"
| "mandatory (Then r1 r2) = mandatory r1 \<union> mandatory r2"
| "mandatory (Star r) = {}"
| "mandatory (Opt r) = {}"
| "mandatory (Group k r) = insert k (mandatory r)"

text \<open>
  \<open>line.match(re)\<close> for a regular expression without the \<open>g\<close> flag: the first match
  from the leftmost position that has one; its captures, or nothing.
\<close>

fun search :: "regex \<Rightarrow> jsstring \<Rightarrow> captures option" where
  "search r [] = (case run r ([], []) of [] \<Rightarrow> None | st # _ \<Rightarrow> Some (snd st))"
| "search r (c # cs) =
     (case run r (c # cs, []) of [] \<Rightarrow> search r cs | st # _ \<Rightarrow> Some (snd st))"

definition one_or_more :: "regex \<Rightarrow> regex" where
  "one_or_more r = Then r (Star r)"

fun seq :: "regex list \<Rightarrow> regex" where
  "seq [] = Empty"
| "seq (r # rs) = Then r (seq rs)"

definition lit :: "string \<Rightarrow> regex" where
  "lit s = seq (map (\<lambda>c. Atom (Lit (of_nat (of_char c)))) s)"

text \<open>
  src/protocol/constants.js:
  \<^verbatim>\<open>/.*name\s*<?([^>\s]+)>?\s.*at port (\d+)(, fd = (\d+))?.*/i\<close>
\<close>

definition NODE_REGEXP :: regex where
  "NODE_REGEXP =
     seq [Star (Atom Dot), lit ''name'', Star (Atom WhiteSpace), Opt (Atom (Lit 0x3C)),
          Group 1 (one_or_more (Atom (NoneOf [Lit 0x3E, WhiteSpace]))),
          Opt (Atom (Lit 0x3E)), Atom WhiteSpace, Star (Atom Dot), lit ''at port '',
          Group 2 (one_or_more (Atom Digit)),
          Opt (Group 3 (seq [lit '', fd = '', Group 4 (one_or_more (Atom Digit))])),
          Star (Atom Dot)]"

section \<open>The response decoder\<close>

text \<open>
  Modelled from the spec: src/protocol/decoder.js is not among the sources; only its
  tests and its caller are. The readers below take a field at an offset and fail with
  \<open>MalformedFrameError\<close> when the buffer ends before the field does (spec 4.2: a declared
  length that exceeds the available bytes must fail rather than read out of bounds).
\<close>

definition readUInt8 :: "buffer \<Rightarrow> nat \<Rightarrow> error + int" where
  "readUInt8 buf off =
     (if off + 1 \<le> length buf then Inr (uint (buf ! off)) else Inl MalformedFrameError)"

text \<open>Modelled from the spec: a big-endian unsigned 16-bit field (decoder.js is missing).\<close>

definition readUInt16BE :: "buffer \<Rightarrow> nat \<Rightarrow> error + int" where
  "readUInt16BE buf off =
     (if off + 2 \<le> length buf then Inr (uint (buf ! off) * 256 + uint (buf ! (off + 1)))
      else Inl MalformedFrameError)"

text \<open>Modelled from the spec: \<open>n\<close> bytes from an offset on (decoder.js is missing).\<close>

definition readBytes :: "buffer \<Rightarrow> nat \<Rightarrow> nat \<Rightarrow> error + buffer" where
  "readBytes buf off n =
     (if off + n \<le> length buf then Inr (take n (drop off buf)) else Inl MalformedFrameError)"

text \<open>
  Modelled from the spec: the decoder reads names and listings "as UTF-8" (decoder.js is
  missing). Bytes that are not UTF-8 become U+FFFD, one for each maximal ill-formed
  prefix, as in Node's \<open>toString('utf8')\<close>; a character beyond U+FFFF becomes a
  surrogate pair.
\<close>

definition is_continuation :: "byte \<Rightarrow> bool" where
  "is_continuation b \<longleftrightarrow> 0x80 \<le> b \<and> b \<le> 0xBF"

definition second_byte_ok :: "byte \<Rightarrow> byte \<Rightarrow> bool" where
  "second_byte_ok b c \<longleftrightarrow>
     (if b = 0xE0 then 0xA0 \<le> c \<and> c \<le> 0xBF
      else if b = 0xED then 0x80 \<le> c \<and> c \<le> 0x9F
      else if b = 0xF0 then 0x90 \<le> c \<and> c \<le> 0xBF
      else if b = 0xF4 then 0x80 \<le> c \<and> c \<le> 0x8F
      else is_continuation c)"

definition code_units :: "nat \<Rightarrow> jsstring" where
  "code_units c =
     (if c < 0x10000 then [of_nat c]
      else [of_nat (0xD800 + (c - 0x10000) div 1024), of_nat (0xDC00 + (c - 0x10000) mod 1024)])"

fun utf8_decode :: "buffer \<Rightarrow> jsstring" where
  "utf8_decode [] = []"
| "utf8_decode (b # bs) =
     (if b < 0x80 then ucast b # utf8_decode bs
      else if 0xC2 \<le> b \<and> b \<le> 0xDF then
        (case bs of
           [] \<Rightarrow> [0xFFFD]
         | c1 # r1 \<Rightarrow>
             if is_continuation c1
             then code_units ((unat b - 0xC0) * 64 + (unat c1 - 0x80)) @ utf8_decode r1
             else 0xFFFD # utf8_decode bs)
      else if 0xE0 \<le> b \<and> b \<le> 0xEF then
        (case bs of
           [] \<Rightarrow> [0xFFFD]
         | c1 # r1 \<Rightarrow>
             if second_byte_ok b c1 then
               (case r1 of
                  [] \<Rightarrow> [0xFFFD]
                | c2 # r2 \<Rightarrow>
                    if is_continuation c2
                    then code_units ((unat b - 0xE0) * 4096 + (unat c1 - 0x80) * 64
                                      + (unat c2 - 0x80)) @ utf8_decode r2
                    else 0xFFFD # utf8_decode r1)
             else 0xFFFD # utf8_decode bs)
      else if 0xF0 \<le> b \<and> b \<le> 0xF4 then
        (case bs of
           [] \<Rightarrow> [0xFFFD]
         | c1 # r1 \<Rightarrow>
             if second_byte_ok b c1 then
               (case r1 of
                  [] \<Rightarrow> [0xFFFD]
                | c2 # r2 \<Rightarrow>
                    if is_continuation c2 then
                      (case r2 of
                         [] \<Rightarrow> [0xFFFD]
                       | c3 # r3 \<Rightarrow>
                           if is_continuation c3
                           then code_units ((unat b - 0xF0) * 262144 + (unat c1 - 0x80) * 4096
                                             + (unat c2 - 0x80) * 64 + (unat c3 - 0x80))
                                  @ utf8_decode r3
                           else 0xFFFD # utf8_decode r2)
                    else 0xFFFD # utf8_decode r1)
             else 0xFFFD # utf8_decode bs)
      else 0xFFFD # utf8_decode bs)"

text \<open>
  Modelled from the spec: ALIVE_RESP and ALIVE2_X_RESP (decoder.js is missing). The
  second byte is the status; status 0 gives the bytes after the two-byte header as
  \<open>creation\<close>, any other status fails with a protocol error that names the response
  kind and the status.
\<close>

definition decodeAliveResp :: "buffer \<Rightarrow> error + decoded" where
  "decodeAliveResp buf =
     andThen (readUInt8 buf 0) (\<lambda>opcode.
     andThen (readUInt8 buf 1) (\<lambda>status.
     if status \<noteq> 0 then Inl (ProtocolStatusError opcode status)
     else Inr (DResponse opcode (AliveData (drop 2 buf)))))"

text \<open>
  Modelled from the spec: PORT2_RESP (decoder.js is missing). Status first; on status 0
  the fixed fields, the name and the extra bytes are read in the order of the wire
  format, then the advertised version range is checked against the client's own:
  the decoder fails if \<open>highestVersion < LOWEST_VERSION\<close> or
  \<open>lowestVersion > HIGHEST_VERSION\<close>.
\<close>

definition decodePort2Resp :: "buffer \<Rightarrow> error + decoded" where
  "decodePort2Resp buf =
     andThen (readUInt8 buf 0) (\<lambda>opcode.
     andThen (readUInt8 buf 1) (\<lambda>status.
     if status \<noteq> 0 then Inl (ProtocolStatusError opcode status)
     else
     andThen (readUInt16BE buf 2) (\<lambda>portNo.
     andThen (readUInt8 buf 4) (\<lambda>nodeType.
     andThen (readUInt8 buf 5) (\<lambda>protocol.
     andThen (readUInt16BE buf 6) (\<lambda>highestVersion.
     andThen (readUInt16BE buf 8) (\<lambda>lowestVersion.
     andThen (readUInt16BE buf 10) (\<lambda>nameLen.
     andThen (readBytes buf 12 (nat nameLen)) (\<lambda>nameBytes.
     andThen (readUInt16BE buf (12 + nat nameLen)) (\<lambda>extraLen.
     andThen (readBytes buf (14 + nat nameLen) (nat extraLen)) (\<lambda>extraBytes.
     if highestVersion < LOWEST_VERSION \<or> lowestVersion > HIGHEST_VERSION
     then Inl VersionRangeError
     else Inr (DResponse opcode (NodeData
            \<lparr>data_port = portNo, data_nodeType = nodeType, data_protocol = protocol,
             data_highestVersion = highestVersion, data_lowestVersion = lowestVersion,
             data_name = utf8_decode nameBytes, data_extra = extraBytes\<rparr>)))))))))))))"

text \<open>
  Modelled from the spec: the text listing (decoder.js is missing). The payload is split
  at line feeds, as \<open>createNamesOrDumpResp\<close> joins it; blank lines are discarded; a line
  that \<open>NODE_REGEXP\<close> matches gives an entry whose name is the first capture, whose
  port is the number the second capture spells and whose fd is the number the fourth
  capture spells when there is one; a line that does not match is dropped.
\<close>

fun split_lines :: "jsstring \<Rightarrow> jsstring list" where
  "split_lines [] = [[]]"
| "split_lines (c # cs) =
     (if c = 0x0A then [] # split_lines cs
      else (case split_lines cs of l # ls \<Rightarrow> (c # l) # ls | [] \<Rightarrow> [[c]]))"

text \<open>
  Modelled from the spec: the number a run of decimal digits spells. The spec gives no
  rule for a number that needs more than 32 bits; the model keeps the number as spelt.
\<close>

definition digits_value :: "jsstring \<Rightarrow> int" where
  "digits_value ds = foldl (\<lambda>acc d. acc * 10 + (uint d - 0x30)) 0 ds"

text \<open>Modelled from the spec: one line of the listing, parsed with \<open>NODE_REGEXP\<close>.\<close>

definition parseNode :: "jsstring \<Rightarrow> node_entry option" where
  "parseNode line =
     (case search NODE_REGEXP line of
        None \<Rightarrow> None
      | Some caps \<Rightarrow>
          (case (map_of caps 1, map_of caps 2) of
             (Some n, Some p) \<Rightarrow>
               Some \<lparr>entry_name = n, entry_port = digits_value p,
                     entry_fd = map_option digits_value (map_of caps 4)\<rparr>
           | _ \<Rightarrow> None))"

text \<open>Modelled from the spec: the whole listing, in the order of its lines.\<close>

definition decodeNodeInfo :: "buffer \<Rightarrow> error + decoded" where
  "decodeNodeInfo buf =
     Inr (DNodeList (List.map_filter parseNode
                       (filter (\<lambda>l. l \<noteq> []) (split_lines (utf8_decode buf)))))"

text \<open>
  Modelled from the spec: the entry point (decoder.js is missing). The first byte
  selects the shape; anything that is not one of the three binary response opcodes is
  a text listing.
\<close>

definition decode :: "buffer \<Rightarrow> error + decoded" where
  "decode buf =
     (case buf of
        [] \<Rightarrow> decodeNodeInfo buf
      | b # _ \<Rightarrow>
          if uint b = ALIVE_RESP \<or> uint b = ALIVE2_X_RESP then decodeAliveResp buf
          else if uint b = PORT2_RESP then decodePort2Resp buf
          else decodeNodeInfo buf)"

section \<open>The client: sending requests and dispatching responses\<close>

text \<open>
  Of the \<open>Client\<close> object the model keeps the socket (\<open>this.client\<close>, undefined until
  \<open>connect()\<close> has run), as the list of buffers written to it so far, and the events
  emitted so far, each with its name and its argument. An event name is optional
  because \<open>TYPE_EVENT_MAP[resp.code]\<close> is \<open>undefined\<close> for a code the table does not
  have. The address of the daemon plays no part in what is written or emitted.
\<close>

datatype event_arg = Response decoded | Failure error

record Client =
  client :: "buffer list option"
  emitted :: "(string option \<times> event_arg) list"

definition TYPE_EVENT_MAP :: "int \<Rightarrow> string option" where
  "TYPE_EVENT_MAP =
     [ALIVE_RESP \<mapsto> ''alive'', ALIVE2_X_RESP \<mapsto> ''alive'', PORT2_RESP \<mapsto> ''node'']"

definition emit :: "Client \<Rightarrow> string option \<Rightarrow> event_arg \<Rightarrow> Client" where
  "emit c event arg = c\<lparr>emitted := emitted c @ [(event, arg)]\<rparr>"

text \<open>\<open>_send(req)\<close>: wrap, then write.\<close>

definition Client_send :: "Client \<Rightarrow> buffer \<Rightarrow> error + Client" where
  "Client_send c req =
     andThen (requestWrapper req) (\<lambda>buf.
     case client c of
       None \<Rightarrow> Inl TypeError
     | Some written \<Rightarrow> Inr (c\<lparr>client := Some (written @ [buf])\<rparr>))"

definition Client_register :: "Client \<Rightarrow> int \<Rightarrow> jsstring \<Rightarrow> error + Client" where
  "Client_register c portNo nodeName = andThen (alive2Request portNo nodeName) (Client_send c)"

definition Client_getNode :: "Client \<Rightarrow> jsstring \<Rightarrow> error + Client" where
  "Client_getNode c nodeName = andThen (portPleaseRequest nodeName) (Client_send c)"

definition Client_getAllNodes :: "Client \<Rightarrow> error + Client" where
  "Client_getAllNodes c = andThen namesRequest (Client_send c)"

definition Client_dumpEpmd :: "Client \<Rightarrow> error + Client" where
  "Client_dumpEpmd c = andThen dumpRequest (Client_send c)"

definition Client_killEpmd :: "Client \<Rightarrow> error + Client" where
  "Client_killEpmd c = andThen killRequest (Client_send c)"

text \<open>
  \<open>_onData(data)\<close>, with \<open>decoder.decode\<close> as the parameter \<open>dec\<close>: a thrown error is
  emitted as \<open>error\<close>; \<open>false\<close> emits nothing; a response with a truthy \<open>code\<close> is emitted
  under the name the table gives for the code; anything else is emitted as \<open>nodeinfo\<close>.
\<close>

definition Client_onData :: "(buffer \<Rightarrow> error + decoded) \<Rightarrow> Client \<Rightarrow> buffer \<Rightarrow> Client" where
  "Client_onData dec c dat =
     (case dec dat of
        Inl e \<Rightarrow> emit c (Some ''error'') (Failure e)
      | Inr resp \<Rightarrow>
          if resp = DFalse then c
          else
            (case code_of resp of
               Some k \<Rightarrow>
                 if k \<noteq> 0 then emit c (TYPE_EVENT_MAP k) (Response resp)
                 else emit c (Some ''nodeinfo'') (Response resp)
             | None \<Rightarrow> emit c (Some ''nodeinfo'') (Response resp)))"

section \<open>Notions for the statements about listings\<close>

text \<open>A line of ASCII characters with no line feed in it, as the tests write them.\<close>

definition ascii_line :: "jsstring \<Rightarrow> bool" where
  "ascii_line l \<longleftrightarrow> (\<forall>c \<in> set l. c < 0x80 \<and> c \<noteq> 0x0A)"

text \<open>A string literal as a JavaScript string.\<close>

definition js :: "string \<Rightarrow> jsstring" where
  "js s = map (\<lambda>c. of_nat (of_char c)) s"

text \<open>
  \<open>s\<close> begins with \<open>w\<close>, and \<open>w\<close> occurs somewhere in \<open>s\<close>, both without regard
  to the case of ASCII letters.
\<close>

definition starts_with_ci :: "jsstring \<Rightarrow> jsstring \<Rightarrow> bool" where
  "starts_with_ci w s \<longleftrightarrow>
     length w \<le> length s \<and> map canonicalize (take (length w) s) = map canonicalize w"

definition occurs_ci :: "jsstring \<Rightarrow> jsstring \<Rightarrow> bool" where
  "occurs_ci w s \<longleftrightarrow> (\<exists>k \<le> length s. starts_with_ci w (drop k s))"

text \<open>The first state the matcher reaches, which is the match it reports.\<close>

definition first_outcome :: "regex \<Rightarrow> mstate \<Rightarrow> mstate option" where
  "first_outcome r st = (case run r st of [] \<Rightarrow> None | x # _ \<Rightarrow> Some x)"

section \<open>Properties of the length-prefix wrapper\<close>

lemmas constants_defs =
  KILL_REQ_def DUMP_REQ_def NAMES_REQ_def PORT2_RESP_def ALIVE2_REQ_def ALIVE_RESP_def
  ALIVE2_X_RESP_def PORT_PLEASE2_REQ_def NODE_TYPE_NORMAL_def NODE_TYPE_HIDDEN_def
  PROTOCOL_IPV4_def HIGHEST_VERSION_def LOWEST_VERSION_def

lemma andThen_Inr [simp]: "andThen (Inr x) f = f x"
  by (simp add: andThen_def)

lemma andThen_Inl [simp]: "andThen (Inl e) f = Inl e"
  by (simp add: andThen_def)

lemma requestWrapper_in_range:
  assumes "length req \<le> 65535"
  shows "requestWrapper req =
           Inr ([of_int (int (length req) div 256), of_int (int (length req) mod 256)] @ req)"
proof -
  let ?n = "length req"
  have alloc: "Buffer_alloc (2 + int ?n) = Inr ([0, 0] @ replicate ?n 0)"
    by (simp add: Buffer_alloc_def nat_add_distrib replicate_add [symmetric]
        del: replicate_add)
  let ?hdr = "[of_int (int ?n div 256), of_int (int ?n mod 256)] :: byte list"
  have wr: "writeUInt16BE ([0, 0] @ replicate ?n 0) (int ?n) 0 = Inr (?hdr @ replicate ?n 0)"
    using assms by (simp add: writeUInt16BE_def overwrite_def)
  have cp: "Buffer_copy req (?hdr @ replicate ?n 0) 2 0 = Inr (?hdr @ req)"
    by (cases "?n = 0") (simp_all add: Buffer_copy_def overwrite_def)
  show ?thesis
    unfolding requestWrapper_def Let_def
    by (simp only: alloc andThen_Inr wr cp)
qed

lemma u16_bytes_value:
  assumes "n \<le> 65535"
  shows "unat (of_int (int n div 256) :: byte) * 256 + unat (of_int (int n mod 256) :: byte) = n"
proof -
  have "int n div 256 = int (n div 256)" by (simp add: zdiv_int)
  then have "(of_int (int n div 256) :: byte) = of_nat (n div 256)" by simp
  moreover have "n div 256 < 256" using assms by simp
  ultimately have hi: "unat (of_int (int n div 256) :: byte) = n div 256"
    by (simp add: unat_of_nat)
  have "int n mod 256 = int (n mod 256)" by (simp add: zmod_int)
  then have "(of_int (int n mod 256) :: byte) = of_nat (n mod 256)" by simp
  then have lo: "unat (of_int (int n mod 256) :: byte) = n mod 256"
    by (simp add: unat_of_nat)
  show ?thesis by (simp add: hi lo)
qed

lemma requestWrapper_too_long:
  assumes "length req > 65535"
  shows "requestWrapper req = Inl ERR_OUT_OF_RANGE"
  using assms
  by (simp add: requestWrapper_def Buffer_alloc_def writeUInt16BE_def)

lemma requestWrapper_Inr_iff:
  "requestWrapper req = Inr f \<longleftrightarrow>
     length req \<le> 65535 \<and>
     f = of_int (int (length req) div 256) # of_int (int (length req) mod 256) # req"
proof (cases "length req \<le> 65535")
  case True
  then show ?thesis using requestWrapper_in_range [of req] by auto
next
  case False
  then show ?thesis using requestWrapper_too_long [of req] by simp
qed

text \<open>
  C1. For every payload of at most 65535 bytes, \<open>requestWrapper\<close> returns a buffer of
  length 2 + the payload's length, whose first two bytes are the payload's length as a
  big-endian unsigned 16-bit number and whose remaining bytes are the payload itself.
\<close>

theorem requestWrapper_frame:
  assumes "length p \<le> 65535"
  shows "\<exists>b0 b1. requestWrapper p = Inr (b0 # b1 # p)
           \<and> length (b0 # b1 # p) = 2 + length p
           \<and> unat b0 * 256 + unat b1 = length p"
  using requestWrapper_in_range [OF assms] u16_bytes_value [OF assms] by simp

theorem requestWrapper_frame_witness:
  "length [0x6E :: byte] \<le> 65535 \<and>
   (\<exists>b0 b1. requestWrapper [0x6E] = Inr [b0, b1, 0x6E] \<and> unat b0 * 256 + unat b1 = 1)"
  using requestWrapper_frame [of "[0x6E]"] by simp

text \<open>
  C10. For every payload of more than 65535 bytes \<open>requestWrapper\<close> throws (the write
  of the 16-bit length rejects the value); so whenever it returns a frame, the frame's
  length prefix is the true length of the payload it wraps.
\<close>

theorem requestWrapper_rejects_long:
  "(length p > 65535 \<longrightarrow> requestWrapper p = Inl ERR_OUT_OF_RANGE) \<and>
   (\<forall>f. requestWrapper p = Inr f \<longrightarrow>
      (\<exists>b0 b1. f = b0 # b1 # p \<and> unat b0 * 256 + unat b1 = length p))"
proof (intro conjI impI allI)
  assume "length p > 65535"
  then show "requestWrapper p = Inl ERR_OUT_OF_RANGE" by (rule requestWrapper_too_long)
next
  fix f assume "requestWrapper p = Inr f"
  then have le: "length p \<le> 65535"
    and f: "f = of_int (int (length p) div 256) # of_int (int (length p) mod 256) # p"
    by (simp_all add: requestWrapper_Inr_iff)
  show "\<exists>b0 b1. f = b0 # b1 # p \<and> unat b0 * 256 + unat b1 = length p"
    using f u16_bytes_value [OF le] by blast
qed

theorem requestWrapper_rejects_long_witness:
  "length (replicate 65536 (0 :: byte)) > 65535 \<and>
   requestWrapper (replicate 65536 0) = Inl ERR_OUT_OF_RANGE \<and>
   requestWrapper [0x64] = Inr [0, 1, 0x64] \<and>
   (\<exists>b0 b1. [0, 1, 0x64 :: byte] = [b0, b1, 0x64] \<and> unat b0 * 256 + unat b1 = length [0x64 :: byte])"
proof -
  have a: "requestWrapper (replicate 65536 0) = Inl ERR_OUT_OF_RANGE"
    using requestWrapper_rejects_long [of "replicate 65536 0"] by simp
  have r: "requestWrapper [0x64] = Inr [0, 1, 0x64]"
    by (simp add: requestWrapper_def Buffer_alloc_def writeUInt16BE_def Buffer_copy_def
        overwrite_def)
  have b: "\<exists>b0 b1. [0, 1, 0x64 :: byte] = [b0, b1, 0x64]
             \<and> unat b0 * 256 + unat b1 = length [0x64 :: byte]"
    using requestWrapper_rejects_long [of "[0x64]"] r by simp
  show ?thesis using a r b by simp
qed

section \<open>Properties of the request encoders\<close>

lemma fit_all: "length (concat cs) \<le> n \<Longrightarrow> fit n cs = cs"
  by (induction cs arbitrary: n) auto

lemma writeUInt8_at:
  assumes "0 \<le> v" "v \<le> 255" "0 \<le> off" "length a = nat off"
  shows "writeUInt8 (a @ x # c) v off = Inr (a @ of_int v # c)"
  using assms by (simp add: writeUInt8_def overwrite_def)

lemma writeUInt16BE_at:
  assumes "0 \<le> v" "v \<le> 65535" "0 \<le> off" "length a = nat off"
  shows "writeUInt16BE (a @ x # y # c) v off
           = Inr (a @ of_int (v div 256) # of_int (v mod 256) # c)"
  using assms by (simp add: writeUInt16BE_def overwrite_def)

lemma Buffer_write_at:
  assumes "0 \<le> off" "length a = nat off" "length b = length (utf8 s)"
  shows "Buffer_write (a @ b @ c) s off = Inr (a @ utf8 s @ c)"
proof -
  have "length (concat (utf8_chars s)) \<le> length b + length c"
    using assms(3) by (simp add: utf8_def)
  then have "fit (length b + length c) (utf8_chars s) = utf8_chars s"
    by (rule fit_all)
  then show ?thesis
    using assms by (simp add: Buffer_write_def overwrite_def utf8_def)
qed

lemma portPleaseRequest_eq: "portPleaseRequest nodeName = Inr (122 # utf8 nodeName)"
proof -
  let ?n = "length (utf8 nodeName)"
  have alloc: "Buffer_alloc (2 + (Buffer_byteLength nodeName - 1)) = Inr ([] @ 0 # replicate ?n 0)"
    by (simp add: Buffer_alloc_def Buffer_byteLength_def nat_add_distrib)
  have w8: "writeUInt8 ([] @ 0 # replicate ?n 0) PORT_PLEASE2_REQ 0
              = Inr ([122] @ replicate ?n 0 @ [])"
    using writeUInt8_at [of PORT_PLEASE2_REQ 0 "[]" 0 "replicate ?n 0"]
    by (simp add: PORT_PLEASE2_REQ_def)
  have wr: "Buffer_write ([122] @ replicate ?n 0 @ []) nodeName 1 = Inr ([122] @ utf8 nodeName @ [])"
    by (rule Buffer_write_at) simp_all
  show ?thesis
    unfolding portPleaseRequest_def Let_def
    by (simp only: alloc andThen_Inr w8 wr) simp
qed

text \<open>
  C2, as the code has it. For every non-empty name the encoder allocates
  \<open>2 + (byteLength(name) - 1)\<close> bytes, that is one byte for the opcode and exactly
  \<open>byteLength(name)\<close> bytes beyond it; it writes opcode 122 at offset 0 and the whole
  name from offset 1 on, with no length field.
\<close>

theorem portPleaseRequest_layout:
  assumes "nodeName \<noteq> []"
  shows "Buffer_alloc (2 + (Buffer_byteLength nodeName - 1))
           = Inr (replicate (1 + length (utf8 nodeName)) 0)
         \<and> portPleaseRequest nodeName = Inr (122 # utf8 nodeName)
         \<and> int (length (122 # utf8 nodeName)) - 1 = Buffer_byteLength nodeName"
  by (simp add: portPleaseRequest_eq Buffer_alloc_def Buffer_byteLength_def nat_add_distrib)

theorem portPleaseRequest_layout_witness:
  "[0x61, 0x62 :: 16 word] \<noteq> [] \<and>
   Buffer_alloc (2 + (Buffer_byteLength [0x61, 0x62] - 1)) = Inr [0, 0, 0] \<and>
   portPleaseRequest [0x61, 0x62] = Inr [122, 0x61, 0x62]"
  using portPleaseRequest_layout [of "[0x61, 0x62]"]
  by (simp add: utf8_def utf8_1_def Buffer_byteLength_def numeral_3_eq_3)

text \<open>
  The claim as the specification states it (only \<open>byteLength(name) - 1\<close> bytes beyond the
  opcode byte) fails already for the two-letter name \<open>ab\<close>: the buffer has two bytes
  beyond the opcode byte, not one.
\<close>

theorem portPleaseRequest_allocation_counterexample:
  "Buffer_byteLength [0x61, 0x62] = 2 \<and>
   Buffer_alloc (2 + (Buffer_byteLength [0x61, 0x62] - 1)) = Inr [0, 0, 0] \<and>
   portPleaseRequest [0x61, 0x62] = Inr [122, 0x61, 0x62] \<and>
   int (length [122, 0x61, 0x62 :: byte]) - 1 \<noteq> Buffer_byteLength [0x61, 0x62] - 1"
  by (simp add: portPleaseRequest_eq utf8_def utf8_1_def Buffer_byteLength_def Buffer_alloc_def
      numeral_3_eq_3)

text \<open>
  C9. \<open>portPleaseRequest\<close> returns a buffer for every name. For the empty name it
  allocates \<open>2 + (0 - 1) = 1\<close> byte, the write of the name at offset 1 writes nothing,
  and the result is the single byte 122.
\<close>

theorem portPleaseRequest_total:
  "(\<exists>buf. portPleaseRequest nodeName = Inr buf) \<and>
   Buffer_byteLength [] = 0 \<and>
   Buffer_alloc (2 + (Buffer_byteLength [] - 1)) = Inr [0] \<and>
   Buffer_write [122] [] 1 = Inr [122] \<and>
   portPleaseRequest [] = Inr [122]"
  by (simp add: portPleaseRequest_eq Buffer_alloc_def Buffer_byteLength_def utf8_def
      Buffer_write_def overwrite_def)

theorem portPleaseRequest_total_witness:
  "(\<exists>buf. portPleaseRequest [0x65, 0x70, 0x6D, 0x64] = Inr buf) \<and>
   portPleaseRequest [] = Inr [122]"
  using portPleaseRequest_total [of "[0x65, 0x70, 0x6D, 0x64]"] by simp

lemma Buffer_set_empty_at_end:
  "0 \<le> off \<Longrightarrow> nat off = length buf \<Longrightarrow> Buffer_set buf [] off = Inr buf"
  by (simp add: Buffer_set_def overwrite_def)

lemma alive2Request_eq:
  assumes port: "0 \<le> port" "port \<le> 65535"
    and len: "length (utf8 nodeName) \<le> 65535"
  shows "alive2Request port nodeName =
           Inr ([120, of_int (port div 256), of_int (port mod 256), 77, 0, 0, 6, 0, 5,
                 of_int (int (length (utf8 nodeName)) div 256),
                 of_int (int (length (utf8 nodeName)) mod 256)]
                @ utf8 nodeName @ [0, 0])"
proof -
  let ?n = "length (utf8 nodeName)"
  let ?N = "int ?n"
  let ?z = "replicate ?n (0 :: byte)"
  let ?ph = "of_int (port div 256) :: byte" and ?pl = "of_int (port mod 256) :: byte"
  let ?nh = "of_int (?N div 256) :: byte" and ?nl = "of_int (?N mod 256) :: byte"
  have bl: "Buffer_byteLength nodeName = ?N"
    by (simp add: Buffer_byteLength_def)
  have a0: "Buffer_alloc 0 = Inr []"
    by (simp add: Buffer_alloc_def)
  have "nat (13 + ?N) = 11 + (?n + 2)"
    by simp
  then have "replicate (nat (13 + ?N)) (0 :: byte) = replicate 11 0 @ ?z @ replicate 2 0"
    by (simp only: replicate_add)
  moreover have "replicate 11 (0 :: byte) = [0, 0, 0, 0, 0, 0, 0, 0, 0, 0, 0]"
    and "replicate 2 (0 :: byte) = [0, 0]"
    by (simp_all add: numeral_eq_Suc)
  ultimately have a1:
    "Buffer_alloc (1 + 2 + 1 + 1 + 2 + 2 + 2 + ?N + 2 + int (length ([] :: buffer)))
       = Inr ([] @ 0 # [0, 0, 0, 0, 0, 0, 0, 0, 0, 0] @ ?z @ [0, 0])"
    by (simp add: Buffer_alloc_def)
  have s1: "writeUInt8 ([] @ 0 # [0, 0, 0, 0, 0, 0, 0, 0, 0, 0] @ ?z @ [0, 0]) ALIVE2_REQ 0
              = Inr ([120] @ 0 # 0 # [0, 0, 0, 0, 0, 0, 0, 0] @ ?z @ [0, 0])"
    using writeUInt8_at [of ALIVE2_REQ 0 "[]"] by (simp add: ALIVE2_REQ_def)
  have s2: "writeUInt16BE ([120] @ 0 # 0 # [0, 0, 0, 0, 0, 0, 0, 0] @ ?z @ [0, 0]) port 1
              = Inr ([120, ?ph, ?pl] @ 0 # [0, 0, 0, 0, 0, 0, 0] @ ?z @ [0, 0])"
    using writeUInt16BE_at [OF port, of 1 "[120]"] by simp
  have s3: "writeUInt8 ([120, ?ph, ?pl] @ 0 # [0, 0, 0, 0, 0, 0, 0] @ ?z @ [0, 0])
                NODE_TYPE_NORMAL 3
              = Inr ([120, ?ph, ?pl, 77] @ 0 # [0, 0, 0, 0, 0, 0] @ ?z @ [0, 0])"
    using writeUInt8_at [of NODE_TYPE_NORMAL 3 "[120, ?ph, ?pl]"]
    by (simp add: NODE_TYPE_NORMAL_def)
  have s4: "writeUInt8 ([120, ?ph, ?pl, 77] @ 0 # [0, 0, 0, 0, 0, 0] @ ?z @ [0, 0])
                PROTOCOL_IPV4 4
              = Inr ([120, ?ph, ?pl, 77, 0] @ 0 # 0 # [0, 0, 0, 0] @ ?z @ [0, 0])"
    using writeUInt8_at [of PROTOCOL_IPV4 4 "[120, ?ph, ?pl, 77]"]
    by (simp add: PROTOCOL_IPV4_def)
  have s5: "writeUInt16BE ([120, ?ph, ?pl, 77, 0] @ 0 # 0 # [0, 0, 0, 0] @ ?z @ [0, 0]) 6 5
              = Inr ([120, ?ph, ?pl, 77, 0, 0, 6] @ 0 # 0 # [0, 0] @ ?z @ [0, 0])"
    using writeUInt16BE_at [of 6 5 "[120, ?ph, ?pl, 77, 0]"] by simp
  have s6: "writeUInt16BE ([120, ?ph, ?pl, 77, 0, 0, 6] @ 0 # 0 # [0, 0] @ ?z @ [0, 0]) 5 7
              = Inr ([120, ?ph, ?pl, 77, 0, 0, 6, 0, 5] @ 0 # 0 # ?z @ [0, 0])"
    using writeUInt16BE_at [of 5 7 "[120, ?ph, ?pl, 77, 0, 0, 6]"] by simp
  have s7: "writeUInt16BE ([120, ?ph, ?pl, 77, 0, 0, 6, 0, 5] @ 0 # 0 # ?z @ [0, 0]) ?N 9
              = Inr ([120, ?ph, ?pl, 77, 0, 0, 6, 0, 5, ?nh, ?nl] @ ?z @ [0, 0])"
    using writeUInt16BE_at [of ?N 9 "[120, ?ph, ?pl, 77, 0, 0, 6, 0, 5]"] len by simp
  have s8: "Buffer_write ([120, ?ph, ?pl, 77, 0, 0, 6, 0, 5, ?nh, ?nl] @ ?z @ [0, 0]) nodeName 11
              = Inr ([120, ?ph, ?pl, 77, 0, 0, 6, 0, 5, ?nh, ?nl] @ utf8 nodeName @ [0, 0])"
    by (rule Buffer_write_at) simp_all
  have s9: "writeUInt16BE
              ([120, ?ph, ?pl, 77, 0, 0, 6, 0, 5, ?nh, ?nl] @ utf8 nodeName @ [0, 0])
              (int (length ([] :: buffer))) (11 + ?N)
              = Inr ([120, ?ph, ?pl, 77, 0, 0, 6, 0, 5, ?nh, ?nl] @ utf8 nodeName @ [0, 0])"
    using writeUInt16BE_at [of 0 "11 + ?N"
        "[120, ?ph, ?pl, 77, 0, 0, 6, 0, 5, ?nh, ?nl] @ utf8 nodeName" 0 0 "[]"]
    by (simp add: nat_add_distrib)
  have s10: "Buffer_set
               ([120, ?ph, ?pl, 77, 0, 0, 6, 0, 5, ?nh, ?nl] @ utf8 nodeName @ [0, 0]) []
               (13 + ?N)
              = Inr ([120, ?ph, ?pl, 77, 0, 0, 6, 0, 5, ?nh, ?nl] @ utf8 nodeName @ [0, 0])"
    by (rule Buffer_set_empty_at_end) (simp_all add: nat_add_distrib)
  show ?thesis
    unfolding alive2Request_def Let_def bl
    by (simp only: a0 andThen_Inr a1 s1 s2 s3 s4 s5 s6 s7 s8 s9 s10)
qed

lemma u16_bytes_value_int:
  assumes "0 \<le> v" "v \<le> 65535"
  shows "int (unat (of_int (v div 256) :: byte) * 256 + unat (of_int (v mod 256) :: byte)) = v"
proof -
  have "nat v \<le> 65535" using assms by simp
  from u16_bytes_value [OF this] show ?thesis using assms by simp
qed

text \<open>
  C5. For every valid port (0 to 65535) and every non-empty name that is valid for the
  request (its UTF-8 length fits the 16-bit \<open>nameLen\<close> field), \<open>alive2Request\<close> returns
  exactly: opcode 120, the port as a big-endian u16, node type 77, protocol 0, highest
  version 6 and lowest version 5 as big-endian u16, the UTF-8 length of the name as a
  big-endian u16, the UTF-8 bytes of the name, and a zero u16 for the empty extra field;
  13 + byteLength(name) bytes in all.
\<close>

theorem alive2Request_layout:
  assumes "0 \<le> port" "port \<le> 65535" "nodeName \<noteq> []" "Buffer_byteLength nodeName \<le> 65535"
  shows "\<exists>p1 p0 n1 n0.
           alive2Request port nodeName
             = Inr ([120, p1, p0, 77, 0, 0, 6, 0, 5, n1, n0] @ utf8 nodeName @ [0, 0])
           \<and> int (unat p1 * 256 + unat p0) = port
           \<and> int (unat n1 * 256 + unat n0) = Buffer_byteLength nodeName
           \<and> int (length ([120, p1, p0, 77, 0, 0, 6, 0, 5, n1, n0] @ utf8 nodeName @ [0, 0]))
               = 13 + Buffer_byteLength nodeName"
proof -
  have len: "length (utf8 nodeName) \<le> 65535"
    using assms(4) by (simp add: Buffer_byteLength_def)
  have "alive2Request port nodeName =
           Inr ([120, of_int (port div 256), of_int (port mod 256), 77, 0, 0, 6, 0, 5,
                 of_int (int (length (utf8 nodeName)) div 256),
                 of_int (int (length (utf8 nodeName)) mod 256)]
                @ utf8 nodeName @ [0, 0])"
    using assms(1,2) len by (rule alive2Request_eq)
  moreover have "int (unat (of_int (port div 256) :: byte) * 256
                   + unat (of_int (port mod 256) :: byte)) = port"
    using assms(1,2) by (rule u16_bytes_value_int)
  moreover have "int (unat (of_int (int (length (utf8 nodeName)) div 256) :: byte) * 256
                   + unat (of_int (int (length (utf8 nodeName)) mod 256) :: byte))
                 = Buffer_byteLength nodeName"
    using u16_bytes_value [OF len] by (simp add: Buffer_byteLength_def)
  ultimately show ?thesis
    by (intro exI conjI) (assumption, assumption, assumption, simp add: Buffer_byteLength_def)
qed

theorem alive2Request_layout_witness:
  "(0 :: int) \<le> 1337 \<and> (1337 :: int) \<le> 65535 \<and> [0x61, 0x62 :: 16 word] \<noteq> [] \<and>
   Buffer_byteLength [0x61, 0x62] \<le> 65535 \<and>
   (\<exists>p1 p0 n1 n0.
      alive2Request 1337 [0x61, 0x62]
        = Inr [120, p1, p0, 77, 0, 0, 6, 0, 5, n1, n0, 0x61, 0x62, 0, 0]
      \<and> int (unat p1 * 256 + unat p0) = 1337
      \<and> int (unat n1 * 256 + unat n0) = 2)"
  using alive2Request_layout [of 1337 "[0x61, 0x62]"]
  by (simp add: Buffer_byteLength_def utf8_def utf8_1_def)

section \<open>Properties of the client's send path\<close>

lemma namesRequest_eq: "namesRequest = Inr [110]"
  by (simp add: namesRequest_def Buffer_alloc_def writeUInt8_def overwrite_def NAMES_REQ_def)

lemma dumpRequest_eq: "dumpRequest = Inr [100]"
  by (simp add: dumpRequest_def Buffer_alloc_def writeUInt8_def overwrite_def DUMP_REQ_def)

lemma killRequest_eq: "killRequest = Inr [107]"
  by (simp add: killRequest_def Buffer_alloc_def writeUInt8_def overwrite_def KILL_REQ_def)

lemma Client_send_Inr:
  assumes "Client_send c req = Inr c'"
  shows "\<exists>written b0 b1. client c = Some written
           \<and> c' = c\<lparr>client := Some (written @ [b0 # b1 # req])\<rparr>
           \<and> unat b0 * 256 + unat b1 = length req"
proof -
  from assms obtain f where f: "requestWrapper req = Inr f"
    by (cases "requestWrapper req") (simp_all add: Client_send_def)
  then have le: "length req \<le> 65535"
    and feq: "f = of_int (int (length req) div 256) # of_int (int (length req) mod 256) # req"
    by (simp_all add: requestWrapper_Inr_iff)
  from assms f obtain written where w: "client c = Some written"
    and c': "c' = c\<lparr>client := Some (written @ [f])\<rparr>"
    by (cases "client c") (simp_all add: Client_send_def)
  show ?thesis
    using w c' feq u16_bytes_value [OF le] by blast
qed

lemma Client_send_small:
  assumes "client c = Some written" "length req \<le> 65535"
  shows "Client_send c req =
           Inr (c\<lparr>client := Some (written @
                  [of_int (int (length req) div 256) # of_int (int (length req) mod 256) # req])\<rparr>)"
  using assms by (simp add: Client_send_def requestWrapper_in_range)

text \<open>
  C8. Every request the client sends (register, query-port, list-names, dump, kill)
  reaches the socket as exactly one buffer, and that buffer is the encoder's payload
  behind one two-byte length prefix: the wrapper is applied once, never skipped and
  never applied twice.
\<close>

theorem requests_wrapped_once:
  assumes "client c = Some written"
  shows
    "(\<forall>c'. Client_register c portNo nodeName = Inr c' \<longrightarrow>
        (\<exists>req b0 b1. alive2Request portNo nodeName = Inr req
           \<and> c' = c\<lparr>client := Some (written @ [b0 # b1 # req])\<rparr>
           \<and> unat b0 * 256 + unat b1 = length req))
     \<and> (\<forall>c'. Client_getNode c name = Inr c' \<longrightarrow>
        (\<exists>req b0 b1. portPleaseRequest name = Inr req
           \<and> c' = c\<lparr>client := Some (written @ [b0 # b1 # req])\<rparr>
           \<and> unat b0 * 256 + unat b1 = length req))
     \<and> namesRequest = Inr [110]
     \<and> Client_getAllNodes c = Inr (c\<lparr>client := Some (written @ [[0, 1, 110]])\<rparr>)
     \<and> dumpRequest = Inr [100]
     \<and> Client_dumpEpmd c = Inr (c\<lparr>client := Some (written @ [[0, 1, 100]])\<rparr>)
     \<and> killRequest = Inr [107]
     \<and> Client_killEpmd c = Inr (c\<lparr>client := Some (written @ [[0, 1, 107]])\<rparr>)"
proof (intro conjI allI impI)
  fix c' assume a: "Client_register c portNo nodeName = Inr c'"
  then obtain req where req: "alive2Request portNo nodeName = Inr req"
    and snd: "Client_send c req = Inr c'"
    by (cases "alive2Request portNo nodeName") (simp_all add: Client_register_def)
  from Client_send_Inr [OF snd] assms req
  show "\<exists>req b0 b1. alive2Request portNo nodeName = Inr req
          \<and> c' = c\<lparr>client := Some (written @ [b0 # b1 # req])\<rparr>
          \<and> unat b0 * 256 + unat b1 = length req"
    by auto
next
  fix c' assume a: "Client_getNode c name = Inr c'"
  then obtain req where req: "portPleaseRequest name = Inr req"
    and snd: "Client_send c req = Inr c'"
    by (cases "portPleaseRequest name") (simp_all add: Client_getNode_def)
  from Client_send_Inr [OF snd] assms req
  show "\<exists>req b0 b1. portPleaseRequest name = Inr req
          \<and> c' = c\<lparr>client := Some (written @ [b0 # b1 # req])\<rparr>
          \<and> unat b0 * 256 + unat b1 = length req"
    by auto
next
  show "namesRequest = Inr [110]" by (rule namesRequest_eq)
next
  show "Client_getAllNodes c = Inr (c\<lparr>client := Some (written @ [[0, 1, 110]])\<rparr>)"
    using Client_send_small [OF assms, of "[110]"]
    by (simp add: Client_getAllNodes_def namesRequest_eq)
next
  show "dumpRequest = Inr [100]" by (rule dumpRequest_eq)
next
  show "Client_dumpEpmd c = Inr (c\<lparr>client := Some (written @ [[0, 1, 100]])\<rparr>)"
    using Client_send_small [OF assms, of "[100]"]
    by (simp add: Client_dumpEpmd_def dumpRequest_eq)
next
  show "killRequest = Inr [107]" by (rule killRequest_eq)
next
  show "Client_killEpmd c = Inr (c\<lparr>client := Some (written @ [[0, 1, 107]])\<rparr>)"
    using Client_send_small [OF assms, of "[107]"]
    by (simp add: Client_killEpmd_def killRequest_eq)
qed

lemma Client_getNode_ab:
  "Client_getNode \<lparr>client = Some [], emitted = []\<rparr> [0x61, 0x62]
     = Inr \<lparr>client = Some [[0, 3, 122, 0x61, 0x62]], emitted = []\<rparr>"
proof -
  have "portPleaseRequest [0x61, 0x62] = Inr [122, 0x61, 0x62]"
    by (simp add: portPleaseRequest_eq utf8_def utf8_1_def)
  then show ?thesis
    using Client_send_small [of "\<lparr>client = Some [], emitted = []\<rparr>" "[]" "[122, 0x61, 0x62]"]
    by (simp add: Client_getNode_def)
qed

lemma Client_register_ab:
  "Client_register \<lparr>client = Some [], emitted = []\<rparr> 1337 [0x61, 0x62]
     = Inr \<lparr>client = Some [[0, 15, 120, 5, 57, 77, 0, 0, 6, 0, 5, 0, 2, 0x61, 0x62, 0, 0]],
            emitted = []\<rparr>"
proof -
  have "alive2Request 1337 [0x61, 0x62]
          = Inr [120, 5, 57, 77, 0, 0, 6, 0, 5, 0, 2, 0x61, 0x62, 0, 0]"
    using alive2Request_eq [of 1337 "[0x61, 0x62]"] by (simp add: utf8_def utf8_1_def)
  then show ?thesis
    using Client_send_small [of "\<lparr>client = Some [], emitted = []\<rparr>" "[]"
        "[120, 5, 57, 77, 0, 0, 6, 0, 5, 0, 2, 0x61, 0x62, 0, 0]"]
    by (simp add: Client_register_def)
qed

theorem requests_wrapped_once_witness:
  "client \<lparr>client = Some [], emitted = []\<rparr> = Some [] \<and>
   Client_register \<lparr>client = Some [], emitted = []\<rparr> 1337 [0x61, 0x62]
     = Inr \<lparr>client = Some [[0, 15, 120, 5, 57, 77, 0, 0, 6, 0, 5, 0, 2, 0x61, 0x62, 0, 0]],
            emitted = []\<rparr> \<and>
   (\<exists>req b0 b1. alive2Request 1337 [0x61, 0x62] = Inr req
      \<and> [0, 15, 120, 5, 57, 77, 0, 0, 6, 0, 5, 0, 2, 0x61, 0x62, 0, 0] = b0 # b1 # req
      \<and> unat b0 * 256 + unat b1 = length req) \<and>
   Client_getNode \<lparr>client = Some [], emitted = []\<rparr> [0x61, 0x62]
     = Inr \<lparr>client = Some [[0, 3, 122, 0x61, 0x62]], emitted = []\<rparr> \<and>
   (\<exists>req b0 b1. portPleaseRequest [0x61, 0x62] = Inr req
      \<and> [0, 3, 122, 0x61, 0x62] = b0 # b1 # req
      \<and> unat b0 * 256 + unat b1 = length req) \<and>
   Client_getAllNodes \<lparr>client = Some [], emitted = []\<rparr>
     = Inr \<lparr>client = Some [[0, 1, 110]], emitted = []\<rparr> \<and>
   Client_dumpEpmd \<lparr>client = Some [], emitted = []\<rparr>
     = Inr \<lparr>client = Some [[0, 1, 100]], emitted = []\<rparr> \<and>
   Client_killEpmd \<lparr>client = Some [], emitted = []\<rparr>
     = Inr \<lparr>client = Some [[0, 1, 107]], emitted = []\<rparr>"
  using requests_wrapped_once [of "\<lparr>client = Some [], emitted = []\<rparr>" "[]" 1337
      "[0x61, 0x62]" "[0x61, 0x62]"]
  by (simp add: Client_register_ab Client_getNode_ab)

section \<open>Properties of the decoder\<close>

lemma decodeAliveResp_eq:
  "decodeAliveResp (op # st # rest) =
     (if st = 0 then Inr (DResponse (uint op) (AliveData rest))
      else Inl (ProtocolStatusError (uint op) (uint st)))"
  by (simp add: decodeAliveResp_def readUInt8_def uint_0_iff)

text \<open>
  C6. A frame whose first byte is ALIVE_RESP (121) or ALIVE2_X_RESP (118) decodes, when
  its status byte is 0, to a response with that code whose \<open>creation\<close> is exactly the
  bytes after the two-byte header; with any other status byte decoding fails with a
  protocol error (naming the response kind and the status), and no value is returned.
\<close>

theorem decode_alive:
  assumes "uint op = ALIVE_RESP \<or> uint op = ALIVE2_X_RESP"
  shows "decode (op # 0 # rest) = Inr (DResponse (uint op) (AliveData rest))
         \<and> (st \<noteq> 0 \<longrightarrow> decode (op # st # rest) = Inl (ProtocolStatusError (uint op) (uint st)))"
  using assms by (simp add: decode_def decodeAliveResp_eq)

theorem decode_alive_witness:
  "(uint (121 :: byte) = ALIVE_RESP \<or> uint (121 :: byte) = ALIVE2_X_RESP) \<and>
   createAliveResp 0 = Inr [121, 0, 0, 1] \<and>
   decode [121, 0, 0, 1] = Inr (DResponse 121 (AliveData [0, 1])) \<and>
   createAliveResp 1 = Inr [121, 1, 0, 1] \<and>
   (1 :: byte) \<noteq> 0 \<and>
   decode [121, 1, 0, 1] = Inl (ProtocolStatusError 121 1)"
  using decode_alive [of 121 "[0, 1]" 1]
  by (simp add: ALIVE_RESP_def createAliveResp_def Buffer_alloc_def writeUInt8_def
      writeUInt16BE_def overwrite_def)

lemma decodePort2Resp_complete:
  assumes frame: "buf = op # 0 # rest"
    and fields: "readUInt16BE buf 6 = Inr hv" "readUInt16BE buf 8 = Inr lv"
      "readUInt16BE buf 10 = Inr nameLen"
      "readUInt16BE buf (12 + nat nameLen) = Inr extraLen"
      "14 + nat nameLen + nat extraLen \<le> length buf"
  shows "decodePort2Resp buf =
           (if hv < LOWEST_VERSION \<or> lv > HIGHEST_VERSION then Inl VersionRangeError
            else Inr (DResponse (uint op) (NodeData
              \<lparr>data_port = uint (buf ! 2) * 256 + uint (buf ! 3), data_nodeType = uint (buf ! 4),
               data_protocol = uint (buf ! 5),
               data_highestVersion = hv, data_lowestVersion = lv,
               data_name = utf8_decode (take (nat nameLen) (drop 12 buf)),
               data_extra = take (nat extraLen) (drop (14 + nat nameLen) buf)\<rparr>)))"
proof -
  have len: "14 \<le> length buf" using fields(5) by simp
  have r0: "readUInt8 buf 0 = Inr (uint op)" and r1: "readUInt8 buf 1 = Inr 0"
    using frame by (simp_all add: readUInt8_def)
  have r2: "readUInt16BE buf 2 = Inr (uint (buf ! 2) * 256 + uint (buf ! 3))"
    using len by (simp add: readUInt16BE_def numeral_3_eq_3 numeral_2_eq_2)
  have r4: "readUInt8 buf 4 = Inr (uint (buf ! 4))" and r5: "readUInt8 buf 5 = Inr (uint (buf ! 5))"
    using len by (simp_all add: readUInt8_def)
  have rn: "readBytes buf 12 (nat nameLen) = Inr (take (nat nameLen) (drop 12 buf))"
    using fields(5) by (simp add: readBytes_def)
  have re: "readBytes buf (14 + nat nameLen) (nat extraLen)
              = Inr (take (nat extraLen) (drop (14 + nat nameLen) buf))"
    using fields(5) by (simp add: readBytes_def)
  show ?thesis
    unfolding decodePort2Resp_def
    by (simp only: r0 r1 r2 r4 r5 fields rn re andThen_Inr) simp
qed

lemma createPort2Resp_testing_0_5:
  "createPort2Resp 0 [116, 101, 115, 116, 105, 110, 103] 1337 0 5
     = Inr [119, 0, 5, 57, 77, 0, 0, 0, 0, 5, 0, 7, 116, 101, 115, 116, 105, 110, 103, 0, 0]"
  by (simp add: createPort2Resp_def Buffer_byteLength_def utf8_def utf8_1_def Buffer_alloc_def
      writeUInt8_def writeUInt16BE_def Buffer_write_def overwrite_def constants_defs)

lemma createPort2Resp_testing_6_10:
  "createPort2Resp 0 [116, 101, 115, 116, 105, 110, 103] 1337 6 10
     = Inr [119, 0, 5, 57, 77, 0, 0, 6, 0, 10, 0, 7, 116, 101, 115, 116, 105, 110, 103, 0, 0]"
  by (simp add: createPort2Resp_def Buffer_byteLength_def utf8_def utf8_1_def Buffer_alloc_def
      writeUInt8_def writeUInt16BE_def Buffer_write_def overwrite_def constants_defs)

lemma createPort2Resp_testing_6_5:
  "createPort2Resp 0 [116, 101, 115, 116, 105, 110, 103] 1337 6 5
     = Inr [119, 0, 5, 57, 77, 0, 0, 6, 0, 5, 0, 7, 116, 101, 115, 116, 105, 110, 103, 0, 0]"
  by (simp add: createPort2Resp_def Buffer_byteLength_def utf8_def utf8_1_def Buffer_alloc_def
      writeUInt8_def writeUInt16BE_def Buffer_write_def overwrite_def constants_defs)

text \<open>
  C3. For a complete PORT2_RESP frame with status byte 0, decoding fails with the
  version-range error exactly when the advertised range misses the client's own, that
  is when \<open>highestVersion < 5\<close> or \<open>lowestVersion > 6\<close>; and it fails in no other way.
  The frames of the tests with versions (0, 5) and (6, 10) fail, the one with (6, 5)
  decodes.
\<close>

theorem decode_port2_version_range:
  assumes "buf = op # 0 # rest" "uint op = PORT2_RESP"
    and "readUInt16BE buf 6 = Inr hv" "readUInt16BE buf 8 = Inr lv"
      "readUInt16BE buf 10 = Inr nameLen"
      "readUInt16BE buf (12 + nat nameLen) = Inr extraLen"
      "14 + nat nameLen + nat extraLen \<le> length buf"
  shows "LOWEST_VERSION = 5 \<and> HIGHEST_VERSION = 6
         \<and> (decode buf = Inl VersionRangeError \<longleftrightarrow> hv < 5 \<or> lv > 6)
         \<and> ((\<exists>e. decode buf = Inl e) \<longleftrightarrow> hv < 5 \<or> lv > 6)"
proof -
  have "decode buf = decodePort2Resp buf"
    using assms(1,2) by (simp add: decode_def constants_defs)
  then show ?thesis
    using decodePort2Resp_complete [OF assms(1,3-7)]
    by (auto simp: LOWEST_VERSION_def HIGHEST_VERSION_def)
qed

text \<open>
  The frames are those \<open>createPort2Resp\<close> builds in the tests for the node
  \<open>testing\<close> on port 1337.
\<close>

theorem decode_port2_version_range_witness:
  "createPort2Resp 0 [116, 101, 115, 116, 105, 110, 103] 1337 0 LOWEST_VERSION
     = Inr [119, 0, 5, 57, 77, 0, 0, 0, 0, 5, 0, 7, 116, 101, 115, 116, 105, 110, 103, 0, 0] \<and>
   decode [119, 0, 5, 57, 77, 0, 0, 0, 0, 5, 0, 7, 116, 101, 115, 116, 105, 110, 103, 0, 0]
     = Inl VersionRangeError \<and>
   createPort2Resp 0 [116, 101, 115, 116, 105, 110, 103] 1337 HIGHEST_VERSION 10
     = Inr [119, 0, 5, 57, 77, 0, 0, 6, 0, 10, 0, 7, 116, 101, 115, 116, 105, 110, 103, 0, 0] \<and>
   decode [119, 0, 5, 57, 77, 0, 0, 6, 0, 10, 0, 7, 116, 101, 115, 116, 105, 110, 103, 0, 0]
     = Inl VersionRangeError \<and>
   createPort2Resp 0 [116, 101, 115, 116, 105, 110, 103] 1337 HIGHEST_VERSION LOWEST_VERSION
     = Inr [119, 0, 5, 57, 77, 0, 0, 6, 0, 5, 0, 7, 116, 101, 115, 116, 105, 110, 103, 0, 0] \<and>
   (\<nexists>e. decode [119, 0, 5, 57, 77, 0, 0, 6, 0, 5, 0, 7, 116, 101, 115, 116, 105, 110, 103, 0, 0]
     = Inl e)"
proof -
  have a: "decode [119, 0, 5, 57, 77, 0, 0, 0, 0, 5, 0, 7, 116, 101, 115, 116, 105, 110, 103, 0, 0]
             = Inl VersionRangeError"
    using decode_port2_version_range
      [of "[119, 0, 5, 57, 77, 0, 0, 0, 0, 5, 0, 7, 116, 101, 115, 116, 105, 110, 103, 0, 0]"
          119 "[5, 57, 77, 0, 0, 0, 0, 5, 0, 7, 116, 101, 115, 116, 105, 110, 103, 0, 0]"
          0 5 7 0]
    by (simp add: readUInt16BE_def PORT2_RESP_def)
  have b: "decode [119, 0, 5, 57, 77, 0, 0, 6, 0, 10, 0, 7, 116, 101, 115, 116, 105, 110, 103, 0, 0]
             = Inl VersionRangeError"
    using decode_port2_version_range
      [of "[119, 0, 5, 57, 77, 0, 0, 6, 0, 10, 0, 7, 116, 101, 115, 116, 105, 110, 103, 0, 0]"
          119 "[5, 57, 77, 0, 0, 6, 0, 10, 0, 7, 116, 101, 115, 116, 105, 110, 103, 0, 0]"
          6 10 7 0]
    by (simp add: readUInt16BE_def PORT2_RESP_def)
  have c: "\<nexists>e. decode [119, 0, 5, 57, 77, 0, 0, 6, 0, 5, 0, 7, 116, 101, 115, 116, 105, 110, 103, 0, 0]
             = Inl e"
    using decode_port2_version_range
      [of "[119, 0, 5, 57, 77, 0, 0, 6, 0, 5, 0, 7, 116, 101, 115, 116, 105, 110, 103, 0, 0]"
          119 "[5, 57, 77, 0, 0, 6, 0, 5, 0, 7, 116, 101, 115, 116, 105, 110, 103, 0, 0]"
          6 5 7 0]
    by (simp add: readUInt16BE_def PORT2_RESP_def)
  show ?thesis
    using a b c
    by (simp only: createPort2Resp_testing_0_5 createPort2Resp_testing_6_10
        createPort2Resp_testing_6_5 LOWEST_VERSION_def HIGHEST_VERSION_def) simp
qed

section \<open>Properties of the text listing\<close>

lemma run_keeps_captures:
  "st' \<in> set (run r st) \<Longrightarrow> mandatory r \<union> fst ` set (snd st) \<subseteq> fst ` set (snd st')"
proof (induction r st arbitrary: st' rule: run.induct)
  case (1 st)
  then show ?case by simp
next
  case (2 a st)
  then show ?case by (auto split: list.splits if_splits)
next
  case (3 r1 r2 st)
  from "3.prems" obtain st1 where st1: "st1 \<in> set (run r1 st)" and st': "st' \<in> set (run r2 st1)"
    by auto
  from "3.IH"(1) [OF st1] "3.IH"(2) [OF st1 st'] show ?case
    by (simp only: mandatory.simps) blast
next
  case (4 r st)
  show ?case
  proof (cases "st' = st")
    case True
    then show ?thesis by simp
  next
    case False
    from "4.prems" have "st' \<in> set (concat (map (run (Star r))
               (filter (\<lambda>st'. length (fst st') < length (fst st)) (run r st))) @ [st])"
      by (simp only: run.simps(4))
    with False obtain st1 where st1: "st1 \<in> set (run r st)"
      and less: "length (fst st1) < length (fst st)"
      and st': "st' \<in> set (run (Star r) st1)"
      by auto
    have m: "st1 \<in> set (filter (\<lambda>st'. length (fst st') < length (fst st)) (run r st))"
      using st1 less by simp
    from "4.IH"(1) [OF st1] "4.IH"(2) [OF m st'] show ?thesis
      by (simp only: mandatory.simps) blast
  qed
next
  case (5 r st)
  show ?case
  proof (cases "st' = st")
    case True
    then show ?thesis by simp
  next
    case False
    with "5.prems" have "st' \<in> set (run r st)" by simp
    from "5.IH" [OF this] show ?thesis
      by (simp only: mandatory.simps) blast
  qed
next
  case (6 k r st)
  from "6.prems" obtain st1 where st1: "st1 \<in> set (run r st)"
    and st': "st' = (fst st1, (k, take (length (fst st) - length (fst st1)) (fst st)) # snd st1)"
    by auto
  from "6.IH" [OF st1] st' show ?case by auto
qed

lemma search_mandatory:
  "search r s = Some caps \<Longrightarrow> mandatory r \<subseteq> fst ` set caps"
proof (induction s)
  case Nil
  then obtain st sts where "run r ([], []) = st # sts" "caps = snd st"
    by (auto split: list.splits)
  then have "st \<in> set (run r ([], []))" by simp
  from run_keeps_captures [OF this] \<open>caps = snd st\<close> show ?case by simp
next
  case (Cons c cs)
  show ?case
  proof (cases "run r (c # cs, [])")
    case Nil
    with Cons show ?thesis by simp
  next
    case (Cons st sts)
    with Cons.prems have "caps = snd st" by simp
    moreover have "st \<in> set (run r (c # cs, []))" using Cons by simp
    ultimately show ?thesis using run_keeps_captures [of st r "(c # cs, [])"] by simp
  qed
qed

lemma mandatory_NODE_REGEXP: "1 \<in> mandatory NODE_REGEXP" "2 \<in> mandatory NODE_REGEXP"
  by (simp_all add: NODE_REGEXP_def one_or_more_def)

lemma parseNode_Some:
  assumes "search NODE_REGEXP line = Some caps"
  shows "\<exists>n p. map_of caps 1 = Some n \<and> map_of caps 2 = Some p
           \<and> parseNode line = Some \<lparr>entry_name = n, entry_port = digits_value p,
                                     entry_fd = map_option digits_value (map_of caps 4)\<rparr>"
proof -
  from search_mandatory [OF assms] mandatory_NODE_REGEXP
  have "1 \<in> fst ` set caps" "2 \<in> fst ` set caps" by auto
  then have "map_of caps 1 \<noteq> None" "map_of caps 2 \<noteq> None"
    by (simp_all add: map_of_eq_None_iff)
  then obtain n p where "map_of caps 1 = Some n" "map_of caps 2 = Some p"
    by auto
  then show ?thesis using assms by (simp add: parseNode_def)
qed

lemma parseNode_None_iff: "parseNode line = None \<longleftrightarrow> search NODE_REGEXP line = None"
proof (cases "search NODE_REGEXP line")
  case None
  then show ?thesis by (simp add: parseNode_def)
next
  case (Some caps)
  from parseNode_Some [OF this] Some show ?thesis by auto
qed

lemma search_NODE_REGEXP_empty: "search NODE_REGEXP [] = None"
  by (simp add: NODE_REGEXP_def lit_def one_or_more_def run.simps(4))

lemma parseNode_empty: "parseNode [] = None"
  by (simp only: parseNode_def search_NODE_REGEXP_empty option.case)

lemma map_filter_drop_blank:
  "List.map_filter parseNode (filter (\<lambda>l. l \<noteq> []) ls) = List.map_filter parseNode ls"
proof (induction ls)
  case Nil
  show ?case by simp
next
  case (Cons l ls)
  then show ?case
    by (cases "l = []") (simp_all add: parseNode_empty split: option.split)
qed

lemma decode_text:
  assumes "buf = [] \<or> (uint (hd buf) \<noteq> ALIVE_RESP \<and> uint (hd buf) \<noteq> ALIVE2_X_RESP
                          \<and> uint (hd buf) \<noteq> PORT2_RESP)"
  shows "decode buf = Inr (DNodeList (List.map_filter parseNode (split_lines (utf8_decode buf))))"
  using assms
  by (cases buf)
    (simp_all add: decode_def decodeNodeInfo_def map_filter_drop_blank parseNode_empty)

lemma utf8_chars_ascii:
  "\<forall>c \<in> set s. c < 0x80 \<Longrightarrow> utf8_chars s = map (\<lambda>c. [ucast c]) s"
  by (induction s rule: utf8_chars.induct) (simp_all add: utf8_1_def)

lemma utf8_ascii: "\<forall>c \<in> set s. c < 0x80 \<Longrightarrow> utf8 s = map ucast s"
  by (simp add: utf8_def utf8_chars_ascii)

lemma unat_ucast_ascii:
  assumes "(c :: 16 word) < 0x80"
  shows "unat (ucast c :: byte) = unat c"
proof -
  have "unat c < 128" using assms by (simp add: word_less_nat_alt)
  then have "take_bit 8 (unat c) = unat c" by (simp add: take_bit_nat_eq_self)
  then show ?thesis by (simp add: unsigned_ucast_eq)
qed

lemma ucast_ascii_lt: "(c :: 16 word) < 0x80 \<Longrightarrow> (ucast c :: byte) < 0x80"
  by (simp add: word_less_nat_alt unat_ucast_ascii)

lemma ucast_ascii_back:
  assumes "(c :: 16 word) < 0x80"
  shows "(ucast (ucast c :: byte) :: 16 word) = c"
proof (rule unsigned_word_eqI [where ?'a = nat])
  have "unat (ucast c :: byte) < 256" using unsigned_less [of "ucast c :: byte"] by simp
  then have "take_bit 16 (unat (ucast c :: byte)) = unat (ucast c :: byte)"
    by (simp add: take_bit_nat_eq_self)
  then show "unat (ucast (ucast c :: byte) :: 16 word) = unat c"
    by (simp add: unsigned_ucast_eq [where ?'c = 16] unat_ucast_ascii [OF assms])
qed

lemma utf8_decode_ascii:
  "\<forall>c \<in> set s. c < 0x80 \<Longrightarrow> utf8_decode (map ucast s) = s"
  by (induction s) (simp_all add: ucast_ascii_lt ucast_ascii_back)

lemma split_lines_no_lf: "0x0A \<notin> set l \<Longrightarrow> split_lines l = [l]"
  by (induction l) auto

lemma split_lines_append_lf:
  "0x0A \<notin> set l \<Longrightarrow> split_lines (l @ 0x0A # rest) = l # split_lines rest"
  by (induction l) auto

lemma split_join_lines:
  "nodes \<noteq> [] \<Longrightarrow> \<forall>l \<in> set nodes. 0x0A \<notin> set l \<Longrightarrow> split_lines (join_lines nodes) = nodes"
  by (induction nodes rule: join_lines.induct)
    (simp_all add: split_lines_no_lf split_lines_append_lf)

lemma join_lines_ascii:
  "\<forall>l \<in> set nodes. \<forall>c \<in> set l. c < 0x80 \<Longrightarrow> \<forall>c \<in> set (join_lines nodes). c < 0x80"
  by (induction nodes rule: join_lines.induct) auto

lemma decode_createNamesOrDumpResp:
  assumes lines: "\<forall>l \<in> set nodes. ascii_line l"
    and first: "createNamesOrDumpResp nodes = []
                \<or> (uint (hd (createNamesOrDumpResp nodes)) \<noteq> ALIVE_RESP
                   \<and> uint (hd (createNamesOrDumpResp nodes)) \<noteq> ALIVE2_X_RESP
                   \<and> uint (hd (createNamesOrDumpResp nodes)) \<noteq> PORT2_RESP)"
  shows "decode (createNamesOrDumpResp nodes) = Inr (DNodeList (List.map_filter parseNode nodes))"
proof -
  have asc: "\<forall>c \<in> set (join_lines nodes). c < 0x80"
    using lines by (intro join_lines_ascii) (simp add: ascii_line_def)
  have "utf8_decode (createNamesOrDumpResp nodes) = join_lines nodes"
    by (simp add: createNamesOrDumpResp_def utf8_ascii [OF asc] utf8_decode_ascii [OF asc])
  then have d: "decode (createNamesOrDumpResp nodes)
                  = Inr (DNodeList (List.map_filter parseNode (split_lines (join_lines nodes))))"
    using decode_text [OF first] by simp
  show ?thesis
  proof (cases "nodes = []")
    case True
    then show ?thesis using d by (simp add: parseNode_empty)
  next
    case False
    moreover have "\<forall>l \<in> set nodes. 0x0A \<notin> set l"
      using lines by (auto simp: ascii_line_def)
    ultimately have "split_lines (join_lines nodes) = nodes"
      by (rule split_join_lines)
    with d show ?thesis by simp
  qed
qed

lemma parseNode_examples:
  "parseNode [110, 97, 109, 101, 32, 116, 101, 115, 116, 32, 97, 116, 32, 112, 111, 114, 116, 32,
              51, 52, 50]
     = Some \<lparr>entry_name = [116, 101, 115, 116], entry_port = 342, entry_fd = None\<rparr>"
  "parseNode [110, 97, 109, 101, 32, 116, 101, 115, 116, 32, 97, 116, 32, 112, 111, 114, 116, 32,
              51, 52, 50, 44, 32, 102, 100, 32, 61, 32, 53]
     = Some \<lparr>entry_name = [116, 101, 115, 116], entry_port = 342, entry_fd = Some 5\<rparr>"
  "parseNode [110, 97, 109, 101, 32, 60, 116, 101, 115, 116, 62, 32, 97, 116, 32, 112, 111, 114,
              116, 32, 51, 52, 50]
     = Some \<lparr>entry_name = [116, 101, 115, 116], entry_port = 342, entry_fd = None\<rparr>"
  "parseNode [32] = None"
  by code_simp+

lemma parseNode_more_examples:
  "parseNode [110, 97, 109, 101, 32, 108, 108, 111, 111, 108, 32, 97, 116, 32, 112, 111, 114, 116, 32, 52,
      53, 54]
     = Some \<lparr>entry_name = [108, 108, 111, 111, 108], entry_port = 456, entry_fd = None\<rparr>"
  "parseNode [110, 97, 109, 101, 32, 104, 101, 104, 101, 104, 101, 32, 97, 116, 32, 112, 111, 114, 116, 32,
      53, 57, 54]
     = Some \<lparr>entry_name = [104, 101, 104, 101, 104, 101], entry_port = 596, entry_fd = None\<rparr>"
  by code_simp+

lemma createNamesOrDumpResp_examples:
  "createNamesOrDumpResp
     [[110, 97, 109, 101, 32, 116, 101, 115, 116, 32, 97, 116, 32, 112, 111, 114, 116, 32, 51, 52,
      50],
      [110, 97, 109, 101, 32, 108, 108, 111, 111, 108, 32, 97, 116, 32, 112, 111, 114, 116, 32, 52,
      53, 54],
      [110, 97, 109, 101, 32, 104, 101, 104, 101, 104, 101, 32, 97, 116, 32, 112, 111, 114, 116, 32,
      53, 57, 54]]
   = [110, 97, 109, 101, 32, 116, 101, 115, 116, 32, 97, 116, 32, 112, 111, 114, 116, 32, 51, 52,
     50, 10, 110, 97, 109, 101, 32, 108, 108, 111, 111, 108, 32, 97, 116, 32, 112, 111, 114,
     116, 32, 52, 53, 54, 10, 110, 97, 109, 101, 32, 104, 101, 104, 101, 104, 101, 32, 97, 116,
     32, 112, 111, 114, 116, 32, 53, 57, 54]"
  "createNamesOrDumpResp
     [[110, 97, 109, 101, 32, 116, 101, 115, 116, 32, 97, 116, 32, 112, 111, 114, 116, 32, 51, 52,
      50, 44, 32, 102, 100, 32, 61, 32, 53]]
   = [110, 97, 109, 101, 32, 116, 101, 115, 116, 32, 97, 116, 32, 112, 111, 114, 116, 32, 51, 52,
      50, 44, 32, 102, 100, 32, 61, 32, 53]"
  "createNamesOrDumpResp [[32]] = [32]"
  "createNamesOrDumpResp
     [[110, 97, 109, 101, 32, 116, 101, 115, 116, 32, 97, 116, 32, 112, 111, 114, 116, 32, 51, 52,
      50], [32], [],
      [110, 97, 109, 101, 32, 116, 101, 115, 116, 32, 97, 116, 32, 112, 111, 114, 116, 32, 51, 52,
      50]]
   = [110, 97, 109, 101, 32, 116, 101, 115, 116, 32, 97, 116, 32, 112, 111, 114, 116, 32, 51, 52,
     50, 10, 32, 10, 10, 110, 97, 109, 101, 32, 116, 101, 115, 116, 32, 97, 116, 32, 112, 111,
     114, 116, 32, 51, 52, 50]"
  by (simp_all add: createNamesOrDumpResp_def utf8_def utf8_1_def)

subsection \<open>Lines of the shape the daemon prints\<close>

lemma lit_js: "lit s = seq (map (\<lambda>c. Atom (Lit c)) (js s))"
  by (simp add: lit_def js_def comp_def)

lemma run_lits:
  "run (seq (map (\<lambda>c. Atom (Lit c)) w)) (s, caps)
     = (if starts_with_ci w s then [(drop (length w) s, caps)] else [])"
proof (induction w arbitrary: s)
  case Nil
  show ?case by (simp add: starts_with_ci_def)
next
  case (Cons a w)
  show ?case
  proof (cases s)
    case Nil
    then show ?thesis by (simp add: starts_with_ci_def)
  next
    case (Cons c cs)
    have "starts_with_ci (a # w) (c # cs) \<longleftrightarrow> canonicalize a = canonicalize c \<and> starts_with_ci w cs"
      by (auto simp: starts_with_ci_def)
    then show ?thesis using Cons Cons.IH [of cs] by simp
  qed
qed

lemma run_lit:
  "run (lit w) (s, caps) = (if starts_with_ci (js w) s then [(drop (length w) s, caps)] else [])"
  by (simp add: lit_js run_lits) (simp add: js_def)

lemma run_Then_lit:
  "run (Then (lit w) r) (s, caps)
     = (if starts_with_ci (js w) s then run r (drop (length w) s, caps) else [])"
  by (simp add: run_lit)

text \<open>Greedy star over one atom: every prefix of the run of matching characters, longest first.\<close>

lemma run_Star_Atom:
  assumes "\<forall>c \<in> set p. atom_matches a c" "s = [] \<or> \<not> atom_matches a (hd s)"
  shows "run (Star (Atom a)) (p @ s, caps) = map (\<lambda>k. (drop k p @ s, caps)) (rev [0..<Suc (length p)])"
  using assms(1)
proof (induction p)
  case Nil
  show ?case using assms(2) by (cases s) (simp_all add: run.simps(4))
next
  case (Cons c p)
  then have IH: "run (Star (Atom a)) (p @ s, caps)
                   = map (\<lambda>k. (drop k p @ s, caps)) (rev [0..<Suc (length p)])"
    and c: "atom_matches a c" by simp_all
  have "run (Star (Atom a)) ((c # p) @ s, caps)
          = run (Star (Atom a)) (p @ s, caps) @ [((c # p) @ s, caps)]"
    using c by (simp add: run.simps(4))
  also have "\<dots> = map (\<lambda>k. (drop k (c # p) @ s, caps)) (rev [0..<Suc (length (c # p))])"
  proof -
    have "[0..<Suc (Suc (length p))] = 0 # map Suc [0..<Suc (length p)]"
      by (simp add: upt_conv_Cons map_Suc_upt del: upt_Suc)
    then show ?thesis
      by (simp add: IH rev_map comp_def del: upt_Suc)
  qed
  finally show ?case .
qed

lemma run_Star_Atom_first:
  assumes "\<forall>c \<in> set p. atom_matches a c" "s = [] \<or> \<not> atom_matches a (hd s)"
  shows "\<exists>rest. run (Star (Atom a)) (p @ s, caps) = (s, caps) # rest"
proof -
  have "rev [0..<Suc (length p)] = length p # rev [0..<length p]" by simp
  then show ?thesis
    using run_Star_Atom [OF assms, of caps] by simp
qed

lemma run_one_or_more_first:
  assumes "p \<noteq> []" "\<forall>c \<in> set p. atom_matches a c" "s = [] \<or> \<not> atom_matches a (hd s)"
  shows "\<exists>rest. run (one_or_more (Atom a)) (p @ s, caps) = (s, caps) # rest"
proof -
  from assms(1) obtain c p' where p: "p = c # p'" by (cases p) auto
  with assms(2) have c: "atom_matches a c" and p': "\<forall>c \<in> set p'. atom_matches a c" by simp_all
  from run_Star_Atom_first [OF p' assms(3), of caps]
  obtain rest where "run (Star (Atom a)) (p' @ s, caps) = (s, caps) # rest" by blast
  then show ?thesis using c p by (simp add: one_or_more_def)
qed

lemma first_outcomeI: "run r st = x # rest \<Longrightarrow> first_outcome r st = Some x"
  by (simp add: first_outcome_def)

lemma first_outcomeD: "first_outcome r st = Some x \<Longrightarrow> \<exists>rest. run r st = x # rest"
  by (cases "run r st") (simp_all add: first_outcome_def)

lemma search_first: "first_outcome r (s, []) = Some x \<Longrightarrow> search r s = Some (snd x)"
  by (cases s) (auto simp: first_outcome_def split: list.splits)

lemma first_Empty: "first_outcome Empty st = Some st"
  by (simp add: first_outcome_def)

lemma first_Then:
  assumes "first_outcome r1 st = Some st1" "first_outcome r2 st1 = Some x"
  shows "first_outcome (Then r1 r2) st = Some x"
proof -
  from first_outcomeD [OF assms(1)] obtain o1 where "run r1 st = st1 # o1" by blast
  moreover from first_outcomeD [OF assms(2)] obtain o2 where "run r2 st1 = x # o2" by blast
  ultimately show ?thesis by (simp add: first_outcome_def)
qed

lemma first_Then_skip:
  assumes "run r1 st = fails @ st1 # others" "\<forall>f \<in> set fails. run r2 f = []"
    "first_outcome r2 st1 = Some x"
  shows "first_outcome (Then r1 r2) st = Some x"
proof -
  from first_outcomeD [OF assms(3)] obtain o2 where o2: "run r2 st1 = x # o2" by blast
  have c: "concat (map (run r2) fails) = []" using assms(2) by simp
  show ?thesis by (simp add: first_outcome_def assms(1) c o2)
qed

lemma first_Group:
  assumes "first_outcome r st = Some st1"
  shows "first_outcome (Group k r) st
           = Some (fst st1, (k, take (length (fst st) - length (fst st1)) (fst st)) # snd st1)"
proof -
  from first_outcomeD [OF assms] obtain o1 where "run r st = st1 # o1" by blast
  then show ?thesis by (simp add: first_outcome_def)
qed

lemma first_Opt_yes: "first_outcome r st = Some x \<Longrightarrow> first_outcome (Opt r) st = Some x"
  by (cases "run r st") (simp_all add: first_outcome_def)

lemma first_Opt_no: "run r st = [] \<Longrightarrow> first_outcome (Opt r) st = Some st"
  by (simp add: first_outcome_def)

lemma first_Atom: "atom_matches a c \<Longrightarrow> first_outcome (Atom a) (c # cs, caps) = Some (cs, caps)"
  by (simp add: first_outcome_def)

lemma first_lit:
  "starts_with_ci (js w) s \<Longrightarrow> first_outcome (lit w) (s, caps) = Some (drop (length w) s, caps)"
  by (simp add: first_outcome_def run_lit)

lemma first_Star_Atom:
  assumes "\<forall>c \<in> set p. atom_matches a c" "s = [] \<or> \<not> atom_matches a (hd s)"
  shows "first_outcome (Star (Atom a)) (p @ s, caps) = Some (s, caps)"
  using run_Star_Atom_first [OF assms, of caps] by (auto intro: first_outcomeI)

lemma first_one_or_more:
  assumes "p \<noteq> []" "\<forall>c \<in> set p. atom_matches a c" "s = [] \<or> \<not> atom_matches a (hd s)"
  shows "first_outcome (one_or_more (Atom a)) (p @ s, caps) = Some (s, caps)"
  using run_one_or_more_first [OF assms, of caps] by (auto intro: first_outcomeI)

text \<open>Greedy \<open>.*\<close> before a literal: the literal is found at its last occurrence.\<close>

lemma first_Star_Dot_lit:
  assumes nolt: "\<forall>c \<in> set (pre @ s). \<not> is_line_terminator c"
    and later: "\<forall>k. 0 < k \<and> k \<le> length s \<longrightarrow> \<not> starts_with_ci (js w) (drop k s)"
    and here: "first_outcome (Then (lit w) r) (s, caps) = Some x"
  shows "first_outcome (Then (Star (Atom Dot)) (Then (lit w) r)) (pre @ s, caps) = Some x"
proof -
  let ?n = "length (pre @ s)" and ?m = "length pre"
  let ?g = "\<lambda>k. (drop k (pre @ s) @ [], caps)"
  have all: "run (Star (Atom Dot)) ((pre @ s) @ [], caps) = map ?g (rev [0..<Suc ?n])"
    by (rule run_Star_Atom) (use nolt in simp_all)
  have "[0..<Suc ?n] = [0..<?m] @ [?m..<Suc ?n]"
    using upt_add_eq_append [of 0 ?m "Suc ?n - ?m"] by simp
  moreover have "[?m..<Suc ?n] = ?m # [Suc ?m..<Suc ?n]"
    by (simp add: upt_conv_Cons del: upt_Suc)
  ultimately have "[0..<Suc ?n] = [0..<?m] @ ?m # [Suc ?m..<Suc ?n]"
    by simp
  then have "rev [0..<Suc ?n] = rev [Suc ?m..<Suc ?n] @ ?m # rev [0..<?m]"
    by simp
  then have split: "run (Star (Atom Dot)) (pre @ s, caps)
      = map ?g (rev [Suc ?m..<Suc ?n]) @ (s, caps) # map ?g (rev [0..<?m])"
    using all by simp
  have fails: "\<forall>f \<in> set (map ?g (rev [Suc ?m..<Suc ?n])). run (Then (lit w) r) f = []"
  proof
    fix f assume "f \<in> set (map ?g (rev [Suc ?m..<Suc ?n]))"
    then have "f \<in> ?g ` {Suc ?m..<Suc ?n}"
      by (simp del: upt_Suc)
    then obtain k where "k \<in> {Suc ?m..<Suc ?n}" and f: "f = (drop k (pre @ s), caps)"
      by auto
    then have k: "?m < k" "k \<le> ?n"
      by simp_all
    then have "drop k (pre @ s) = drop (k - ?m) s" by simp
    moreover have "0 < k - ?m \<and> k - ?m \<le> length s" using k by simp
    ultimately have ns: "\<not> starts_with_ci (js w) (drop k (pre @ s))"
      using later by simp
    show "run (Then (lit w) r) f = []"
      unfolding f by (simp only: run_Then_lit ns if_False)
  qed
  from first_Then_skip [OF split fails here] show ?thesis .
qed

lemma starts_with_ci_self: "starts_with_ci w (w @ rest)"
  by (simp add: starts_with_ci_def)

lemma not_starts_with_ci_later:
  assumes "\<forall>c \<in> set (tl s). canonicalize c \<noteq> canonicalize a" "0 < k"
  shows "\<not> starts_with_ci (a # w) (drop k s)"
proof (cases "drop k s")
  case Nil
  then show ?thesis by (simp add: starts_with_ci_def)
next
  case (Cons c cs)
  from assms(2) have "drop k s = drop (k - 1) (tl s)"
    by (cases s; cases k) simp_all
  with Cons have "c \<in> set (tl s)"
    by (metis in_set_dropD list.set_intros(1))
  with assms(1) have "canonicalize c \<noteq> canonicalize a" by simp
  then show ?thesis using Cons by (auto simp: starts_with_ci_def)
qed

lemma digit_facts:
  assumes "atom_matches Digit c"
  shows "\<not> is_line_terminator c" "canonicalize c \<noteq> 0x41" "c \<noteq> 0x3E"
  using assms
  by (auto simp: is_line_terminator_def canonicalize_def)

lemma js_literals:
  "js ''name'' = [0x6E, 0x61, 0x6D, 0x65]"
  "js '' at port '' = 0x20 # js ''at port ''"
  "js ''at port '' = [0x61, 0x74, 0x20, 0x70, 0x6F, 0x72, 0x74, 0x20]"
  "js '', fd = '' = [0x2C, 0x20, 0x66, 0x64, 0x20, 0x3D, 0x20]"
  by (simp_all add: js_def)

lemma first_lit_self: "first_outcome (lit w) (js w @ rest, caps) = Some (rest, caps)"
  using first_lit [OF starts_with_ci_self, of w rest caps] by (simp add: js_def)

lemma node_line_tail:
  fixes ds tail :: jsstring and fd :: "jsstring option"
  assumes ds: "ds \<noteq> []" "\<forall>c \<in> set ds. atom_matches Digit c"
    and no4: "map_of caps 4 = None"
    and tail: "(tail = [] \<and> fd = None)
               \<or> (\<exists>fs. fs \<noteq> [] \<and> (\<forall>c \<in> set fs. atom_matches Digit c)
                     \<and> tail = js '', fd = '' @ fs \<and> fd = Some fs)"
  shows "\<exists>caps'. first_outcome
           (seq [Group 2 (one_or_more (Atom Digit)),
                 Opt (Group 3 (seq [lit '', fd = '', Group 4 (one_or_more (Atom Digit))])),
                 Star (Atom Dot)])
           (ds @ tail, caps) = Some ([], caps')
         \<and> map_of caps' 2 = Some ds \<and> map_of caps' 4 = fd \<and> map_of caps' 1 = map_of caps 1"
proof -
  let ?G4 = "Group 4 (one_or_more (Atom Digit))"
  let ?A11 = "Opt (Group 3 (seq [lit '', fd = '', ?G4]))"
  have last: "\<And>c. first_outcome (seq [Star (Atom Dot)]) ([], c) = Some ([], c)"
    by (simp add: first_outcome_def run.simps(4))
  have tl_nd: "tail = [] \<or> \<not> atom_matches Digit (hd tail)"
    using tail by (auto simp: js_literals)
  have "first_outcome (one_or_more (Atom Digit)) (ds @ tail, caps) = Some (tail, caps)"
    using ds tl_nd by (rule first_one_or_more)
  from first_Group [OF this, of 2]
  have g2: "first_outcome (Group 2 (one_or_more (Atom Digit))) (ds @ tail, caps)
              = Some (tail, (2, ds) # caps)"
    by simp
  from tail show ?thesis
  proof (elim disjE conjE exE)
    assume t: "tail = []" and fd: "fd = None"
    have "run (Group 3 (seq [lit '', fd = '', ?G4])) ([], (2, ds) # caps) = []"
      by (simp add: run_lit starts_with_ci_def js_literals)
    then have "first_outcome ?A11 (tail, (2, ds) # caps) = Some ([], (2, ds) # caps)"
      unfolding t by (rule first_Opt_no)
    from first_Then [OF this last]
    have "first_outcome (seq [?A11, Star (Atom Dot)]) (tail, (2, ds) # caps)
            = Some ([], (2, ds) # caps)"
      by simp
    from first_Then [OF g2 this] show ?thesis
      using fd no4 by (intro exI [of _ "(2, ds) # caps"]) simp
  next
    fix fs assume fs: "fs \<noteq> []" "\<forall>c \<in> set fs. atom_matches Digit c"
      and t: "tail = js '', fd = '' @ fs" and fd: "fd = Some fs"
    let ?c = "(2, ds) # caps"
    have "first_outcome (one_or_more (Atom Digit)) (fs @ [], ?c) = Some ([], ?c)"
      using fs by (intro first_one_or_more) simp_all
    from first_Group [OF this, of 4]
    have "first_outcome ?G4 (fs, ?c) = Some ([], (4, fs) # ?c)"
      by simp
    from first_Then [OF this first_Empty]
    have "first_outcome (seq [?G4]) (fs, ?c) = Some ([], (4, fs) # ?c)"
      by simp
    moreover have "first_outcome (lit '', fd = '') (tail, ?c) = Some (fs, ?c)"
      unfolding t by (rule first_lit_self)
    ultimately have "first_outcome (seq [lit '', fd = '', ?G4]) (tail, ?c)
                       = Some ([], (4, fs) # ?c)"
      using first_Then by simp
    from first_Opt_yes [OF first_Group [OF this, of 3]]
    have "first_outcome ?A11 (tail, ?c) = Some ([], (3, tail) # (4, fs) # ?c)"
      by simp
    from first_Then [OF this last]
    have "first_outcome (seq [?A11, Star (Atom Dot)]) (tail, ?c)
            = Some ([], (3, tail) # (4, fs) # ?c)"
      by simp
    from first_Then [OF g2 this] show ?thesis
      using fd by (intro exI [of _ "(3, tail) # (4, fs) # (2, ds) # caps"]) simp
  qed
qed

lemma white_space_facts:
  "is_white_space 0x20" "\<not> is_white_space 0x3C" "\<not> is_white_space 0x3E"
  "is_line_terminator c \<Longrightarrow> is_white_space c"
  by (auto simp: is_white_space_def is_line_terminator_def)

lemma node_line_first:
  fixes pre sp lt tok gt ds tail :: jsstring and fd :: "jsstring option"
  defines "s2 \<equiv> js ''name'' @ sp @ lt @ tok @ gt @ js '' at port '' @ ds @ tail"
  assumes nolt: "\<forall>c \<in> set (pre @ sp). \<not> is_line_terminator c"
    and sp: "\<forall>c \<in> set sp. is_white_space c"
    and lt: "lt = [] \<or> lt = [0x3C]"
    and gt: "gt = [] \<or> gt = [0x3E]"
    and tok: "tok \<noteq> []" "\<forall>c \<in> set tok. \<not> is_white_space c \<and> c \<noteq> 0x3E \<and> c \<noteq> 0x3C"
    and ds: "ds \<noteq> []" "\<forall>c \<in> set ds. atom_matches Digit c"
    and tail: "(tail = [] \<and> fd = None)
               \<or> (\<exists>fs. fs \<noteq> [] \<and> (\<forall>c \<in> set fs. atom_matches Digit c)
                     \<and> tail = js '', fd = '' @ fs \<and> fd = Some fs)"
    and name_last: "\<forall>k. 0 < k \<and> k \<le> length s2 \<longrightarrow> \<not> starts_with_ci (js ''name'') (drop k s2)"
  shows "\<exists>caps. search NODE_REGEXP (pre @ s2) = Some caps
           \<and> map_of caps 1 = Some tok \<and> map_of caps 2 = Some ds \<and> map_of caps 4 = fd"
proof -
  let ?A3 = "Star (Atom WhiteSpace)"
  let ?A4 = "Opt (Atom (Lit 0x3C))"
  let ?A5 = "Group 1 (one_or_more (Atom (NoneOf [Lit 0x3E, WhiteSpace])))"
  let ?A6 = "Opt (Atom (Lit 0x3E))"
  let ?A7 = "Atom WhiteSpace"
  let ?T10 = "seq [Group 2 (one_or_more (Atom Digit)),
                   Opt (Group 3 (seq [lit '', fd = '', Group 4 (one_or_more (Atom Digit))])),
                   Star (Atom Dot)]"
  let ?T9 = "Then (lit ''at port '') ?T10"
  let ?T8 = "Then (Star (Atom Dot)) ?T9"
  let ?T7 = "Then ?A7 ?T8"
  let ?T6 = "Then ?A6 ?T7"
  let ?T5 = "Then ?A5 ?T6"
  let ?T4 = "Then ?A4 ?T5"
  let ?T3 = "Then ?A3 ?T4"
  let ?T2 = "Then (lit ''name'') ?T3"
  let ?s8 = "js ''at port '' @ ds @ tail"
  let ?s7 = "0x20 # ?s8"
  let ?s6 = "gt @ ?s7"
  let ?s5 = "tok @ ?s6"
  let ?s4 = "lt @ ?s5"
  let ?s3 = "sp @ ?s4"
  let ?c5 = "[(1, tok)] :: captures"
  have re: "NODE_REGEXP = Then (Star (Atom Dot)) ?T2"
    by (simp add: NODE_REGEXP_def)
  have s2: "s2 = js ''name'' @ ?s3"
    by (simp add: s2_def js_literals)
  have tail_chars: "\<forall>c \<in> set tail. \<not> is_line_terminator c \<and> canonicalize c \<noteq> 0x41"
  proof
    fix c assume "c \<in> set tail"
    with tail consider "c \<in> {0x2C, 0x20, 0x66, 0x64, 0x3D}" | "atom_matches Digit c"
      by (auto simp: js_literals simp del: atom_matches.simps)
    then show "\<not> is_line_terminator c \<and> canonicalize c \<noteq> 0x41"
    proof cases
      case 1
      then show ?thesis by (auto simp: is_line_terminator_def canonicalize_def)
    next
      case 2
      then show ?thesis using digit_facts(1,2) by blast
    qed
  qed
  have ds_chars: "\<forall>c \<in> set ds. \<not> is_line_terminator c \<and> canonicalize c \<noteq> 0x41"
    using ds(2) digit_facts(1,2) by blast
  \<comment> \<open>port, fd and what follows\<close>
  from node_line_tail [OF ds _ tail, of ?c5]
  obtain caps where t10: "first_outcome ?T10 (ds @ tail, ?c5) = Some ([], caps)"
    and caps: "map_of caps 2 = Some ds" "map_of caps 4 = fd" "map_of caps 1 = Some tok"
    by auto
  \<comment> \<open>the second \<open>.*\<close> and \<open>at port\<close>\<close>
  have t9: "first_outcome ?T9 (?s8, ?c5) = Some ([], caps)"
    by (rule first_Then [OF first_lit_self t10])
  have "first_outcome (Then (Star (Atom Dot)) ?T9) ([] @ ?s8, ?c5) = Some ([], caps)"
  proof (rule first_Star_Dot_lit [OF _ _ t9])
    show "\<forall>c \<in> set ([] @ ?s8). \<not> is_line_terminator c"
      using ds_chars tail_chars by (auto simp: js_literals is_line_terminator_def)
    have "\<forall>c \<in> set (tl ?s8). canonicalize c \<noteq> canonicalize 0x61"
      using ds_chars tail_chars by (auto simp: js_literals canonicalize_def)
    then show "\<forall>k. 0 < k \<and> k \<le> length ?s8 \<longrightarrow> \<not> starts_with_ci (js ''at port '') (drop k ?s8)"
      using not_starts_with_ci_later [of ?s8 "0x61" _ "[0x74, 0x20, 0x70, 0x6F, 0x72, 0x74, 0x20]"]
      by (simp add: js_literals)
  qed
  then have t8: "first_outcome ?T8 (?s8, ?c5) = Some ([], caps)"
    by simp
  \<comment> \<open>the blank after the name, and an optional \<open>>\<close>\<close>
  have t7: "first_outcome ?T7 (?s7, ?c5) = Some ([], caps)"
    by (rule first_Then [OF first_Atom t8]) (simp add: white_space_facts)
  have a6: "first_outcome ?A6 (?s6, ?c5) = Some (?s7, ?c5)"
    using gt
  proof
    assume "gt = []"
    then show ?thesis by (simp add: first_outcome_def canonicalize_def)
  next
    assume "gt = [0x3E]"
    then show ?thesis by (simp add: first_outcome_def)
  qed
  have t6: "first_outcome ?T6 (?s6, ?c5) = Some ([], caps)"
    by (rule first_Then [OF a6 t7])
  \<comment> \<open>the name\<close>
  have "?s6 = [] \<or> \<not> atom_matches (NoneOf [Lit 0x3E, WhiteSpace]) (hd ?s6)"
    using gt by (auto simp: white_space_facts)
  moreover have "\<forall>c \<in> set tok. atom_matches (NoneOf [Lit 0x3E, WhiteSpace]) c"
    using tok(2) by (auto simp: canonicalize_def)
  ultimately have "first_outcome (one_or_more (Atom (NoneOf [Lit 0x3E, WhiteSpace]))) (tok @ ?s6, [])
                     = Some (?s6, [])"
    using tok(1) by (intro first_one_or_more)
  from first_Group [OF this, of 1]
  have a5: "first_outcome ?A5 (?s5, []) = Some (?s6, ?c5)"
    by simp
  have t5: "first_outcome ?T5 (?s5, []) = Some ([], caps)"
    by (rule first_Then [OF a5 t6])
  \<comment> \<open>an optional \<open><\<close>, after any blanks\<close>
  have a4: "first_outcome ?A4 (?s4, []) = Some (?s5, [])"
    using lt
  proof
    assume "lt = []"
    moreover from tok obtain t ts where "tok = t # ts" "t \<noteq> 0x3C"
      by (cases tok) auto
    ultimately show ?thesis
      by (auto simp: first_outcome_def canonicalize_def)
  next
    assume "lt = [0x3C]"
    then show ?thesis by (simp add: first_outcome_def)
  qed
  have t4: "first_outcome ?T4 (?s4, []) = Some ([], caps)"
    by (rule first_Then [OF a4 t5])
  have "?s4 = [] \<or> \<not> atom_matches WhiteSpace (hd ?s4)"
    using lt tok by (cases tok) (auto simp: white_space_facts)
  then have a3: "first_outcome ?A3 (sp @ ?s4, []) = Some (?s4, [])"
    using sp by (intro first_Star_Atom) simp_all
  have t3: "first_outcome ?T3 (?s3, []) = Some ([], caps)"
    by (rule first_Then [OF a3 t4])
  \<comment> \<open>the first \<open>.*\<close> and \<open>name\<close>\<close>
  have t2: "first_outcome ?T2 (s2, []) = Some ([], caps)"
    unfolding s2 by (rule first_Then [OF first_lit_self t3])
  have first: "first_outcome (Then (Star (Atom Dot)) ?T2) (pre @ s2, []) = Some ([], caps)"
  proof (rule first_Star_Dot_lit [OF _ _ t2])
    have "\<forall>c \<in> set tok. \<not> is_line_terminator c"
      using tok(2) white_space_facts(4) by blast
    moreover have "\<forall>c \<in> set (js ''name'' @ lt @ gt @ js '' at port ''). \<not> is_line_terminator c"
      using lt gt by (auto simp: js_literals is_line_terminator_def)
    ultimately have "\<forall>c \<in> set (pre @ sp) \<union> set tok
                        \<union> set (js ''name'' @ lt @ gt @ js '' at port '') \<union> set ds \<union> set tail.
                       \<not> is_line_terminator c"
      using nolt ds_chars tail_chars by blast
    moreover have "set (pre @ s2) = set (pre @ sp) \<union> set tok
                     \<union> set (js ''name'' @ lt @ gt @ js '' at port '') \<union> set ds \<union> set tail"
      unfolding s2_def by (simp only: set_append) blast
    ultimately show "\<forall>c \<in> set (pre @ s2). \<not> is_line_terminator c"
      by simp
    show "\<forall>k. 0 < k \<and> k \<le> length s2 \<longrightarrow> \<not> starts_with_ci (js ''name'') (drop k s2)"
      by (rule name_last)
  qed
  have "search NODE_REGEXP (pre @ s2) = Some caps"
    using search_first [OF first] by (simp only: re snd_conv)
  with caps show ?thesis by blast
qed

lemma occurs_ci_Cons: "occurs_ci w (c # s) \<longleftrightarrow> starts_with_ci w (c # s) \<or> occurs_ci w s"
proof
  assume "occurs_ci w (c # s)"
  then obtain k where k: "k \<le> Suc (length s)" "starts_with_ci w (drop k (c # s))"
    by (auto simp: occurs_ci_def)
  show "starts_with_ci w (c # s) \<or> occurs_ci w s"
  proof (cases k)
    case 0
    with k show ?thesis by simp
  next
    case (Suc j)
    with k have "j \<le> length s" "starts_with_ci w (drop j s)" by simp_all
    then show ?thesis by (auto simp: occurs_ci_def)
  qed
next
  assume "starts_with_ci w (c # s) \<or> occurs_ci w s"
  then show "occurs_ci w (c # s)"
  proof
    assume "starts_with_ci w (c # s)"
    then have "0 \<le> length (c # s) \<and> starts_with_ci w (drop 0 (c # s))" by simp
    then show ?thesis unfolding occurs_ci_def by blast
  next
    assume "occurs_ci w s"
    then obtain k where "k \<le> length s" "starts_with_ci w (drop k s)"
      by (auto simp: occurs_ci_def)
    then have "Suc k \<le> length (c # s) \<and> starts_with_ci w (drop (Suc k) (c # s))" by simp
    then show ?thesis unfolding occurs_ci_def by blast
  qed
qed

lemma occurs_ci_Nil: "occurs_ci (a # w) [] \<longleftrightarrow> False"
  by (simp add: occurs_ci_def starts_with_ci_def)

lemma not_starts_other_first:
  "canonicalize c \<noteq> canonicalize a \<Longrightarrow> \<not> starts_with_ci (a # w) (c # s)"
  by (auto simp: starts_with_ci_def)

lemma occurs_ci_skip:
  "\<forall>c \<in> set p. canonicalize c \<noteq> canonicalize a \<Longrightarrow> occurs_ci (a # w) (p @ s) \<longleftrightarrow> occurs_ci (a # w) s"
  by (induction p) (simp_all add: occurs_ci_Cons not_starts_other_first)

lemma starts_with_ci_straddle:
  assumes "\<not> starts_with_ci w x" "canonicalize c \<notin> canonicalize ` set w"
  shows "\<not> starts_with_ci w (x @ c # s)"
proof
  assume sw: "starts_with_ci w (x @ c # s)"
  show False
  proof (cases "length w \<le> length x")
    case True
    with sw have "starts_with_ci w x" by (simp add: starts_with_ci_def)
    with assms(1) show False by simp
  next
    case False
    then have lt: "length x < length w" by simp
    from sw have eq: "map canonicalize (take (length w) (x @ c # s)) = map canonicalize w"
      by (simp add: starts_with_ci_def)
    have "map canonicalize (take (length w) (x @ c # s)) ! length x = canonicalize c"
      using lt by (simp add: nth_append)
    with eq have "canonicalize c = canonicalize (w ! length x)"
      using lt by simp
    with lt have "canonicalize c \<in> canonicalize ` set w"
      by (metis imageI nth_mem)
    with assms(2) show False by simp
  qed
qed

lemma occurs_ci_token:
  assumes "\<not> occurs_ci w tok" "canonicalize c \<notin> canonicalize ` set w" "\<not> occurs_ci w (c # s)"
  shows "\<not> occurs_ci w (tok @ c # s)"
  using assms(1)
proof (induction tok)
  case Nil
  show ?case using assms(3) by simp
next
  case (Cons t ts)
  then have "\<not> starts_with_ci w (t # ts)" "\<not> occurs_ci w ts"
    by (simp_all add: occurs_ci_Cons)
  with Cons.IH starts_with_ci_straddle [of w "t # ts" c s] assms(2)
  show ?case by (simp add: occurs_ci_Cons)
qed

lemma canonicalize_N_facts:
  "is_white_space c \<Longrightarrow> canonicalize c \<noteq> 0x4E"
  "atom_matches Digit c \<Longrightarrow> canonicalize c \<noteq> 0x4E"
  by (auto simp: is_white_space_def canonicalize_def)

lemma parseNode_listing_line:
  fixes pre sp lt tok gt ds tail :: jsstring and fd :: "jsstring option"
  assumes nolt: "\<forall>c \<in> set (pre @ sp). \<not> is_line_terminator c"
    and sp: "\<forall>c \<in> set sp. is_white_space c"
    and lt: "lt = [] \<or> lt = [0x3C]"
    and gt: "gt = [] \<or> gt = [0x3E]"
    and tok: "tok \<noteq> []" "\<forall>c \<in> set tok. \<not> is_white_space c \<and> c \<noteq> 0x3E \<and> c \<noteq> 0x3C"
    and no_name: "\<not> occurs_ci (js ''name'') tok"
    and ds: "ds \<noteq> []" "\<forall>c \<in> set ds. 0x30 \<le> c \<and> c \<le> 0x39"
    and tail: "(tail = [] \<and> fd = None)
               \<or> (\<exists>fs. fs \<noteq> [] \<and> (\<forall>c \<in> set fs. 0x30 \<le> c \<and> c \<le> 0x39)
                     \<and> tail = js '', fd = '' @ fs \<and> fd = Some fs)"
  shows "parseNode (pre @ js ''name'' @ sp @ lt @ tok @ gt @ js '' at port '' @ ds @ tail)
           = Some \<lparr>entry_name = tok, entry_port = digits_value ds,
                   entry_fd = map_option digits_value fd\<rparr>"
proof -
  let ?s2 = "js ''name'' @ sp @ lt @ tok @ gt @ js '' at port '' @ ds @ tail"
  let ?end = "js ''at port '' @ ds @ tail"
  have ds': "\<forall>c \<in> set ds. atom_matches Digit c"
    using ds(2) by simp
  have tail': "(tail = [] \<and> fd = None)
               \<or> (\<exists>fs. fs \<noteq> [] \<and> (\<forall>c \<in> set fs. atom_matches Digit c)
                     \<and> tail = js '', fd = '' @ fs \<and> fd = Some fs)"
    using tail by simp
  have tail_N: "\<forall>c \<in> set tail. canonicalize c \<noteq> 0x4E"
  proof
    fix c assume "c \<in> set tail"
    with tail' consider "c \<in> {0x2C, 0x20, 0x66, 0x64, 0x3D}" | "atom_matches Digit c"
      by (auto simp: js_literals simp del: atom_matches.simps)
    then show "canonicalize c \<noteq> 0x4E"
    proof cases
      case 1
      then show ?thesis by (auto simp: canonicalize_def)
    next
      case 2
      then show ?thesis by (rule canonicalize_N_facts)
    qed
  qed
  have cN: "canonicalize (0x6E :: 16 word) = 0x4E"
    by (simp add: canonicalize_def)
  have end_N: "\<forall>c \<in> set (gt @ 0x20 # ?end). canonicalize c \<noteq> canonicalize 0x6E"
    using gt tail_N ds' canonicalize_N_facts(2)
    by (auto simp: js_literals cN) (simp_all add: canonicalize_def)
  obtain c0 s' where c0: "gt @ 0x20 # ?end = c0 # s'" and c0': "c0 = 0x3E \<or> c0 = 0x20"
    using gt by auto
  have "\<not> occurs_ci (js ''name'') ((gt @ 0x20 # ?end) @ [])"
    unfolding js_literals(1) occurs_ci_skip [OF end_N] by (simp add: occurs_ci_Nil)
  then have after: "\<not> occurs_ci (js ''name'') (c0 # s')"
    using c0 by simp
  have "canonicalize c0 \<notin> canonicalize ` set (js ''name'')"
    using c0' by (auto simp: js_literals canonicalize_def)
  from occurs_ci_token [OF no_name this after]
  have in_tok: "\<not> occurs_ci (js ''name'') (tok @ gt @ 0x20 # ?end)"
    using c0 by simp
  have front_N: "\<forall>c \<in> set ([0x61, 0x6D, 0x65] @ sp @ lt). canonicalize c \<noteq> canonicalize 0x6E"
    using sp lt canonicalize_N_facts(1)
    by (auto simp: cN) (simp_all add: canonicalize_def)
  have "\<not> occurs_ci (js ''name'') (([0x61, 0x6D, 0x65] @ sp @ lt) @ tok @ gt @ 0x20 # ?end)"
    unfolding js_literals(1) occurs_ci_skip [OF front_N] using in_tok by (simp add: js_literals)
  then have tl: "\<not> occurs_ci (js ''name'') (tl ?s2)"
    by (simp add: js_literals)
  have name_last: "\<forall>k. 0 < k \<and> k \<le> length ?s2 \<longrightarrow> \<not> starts_with_ci (js ''name'') (drop k ?s2)"
  proof (intro allI impI)
    fix k assume k: "0 < k \<and> k \<le> length ?s2"
    then obtain j where j: "k = Suc j"
      by (cases k) simp_all
    have "drop k ?s2 = drop (k - 1) (tl ?s2)"
      unfolding j by (simp only: drop_Suc diff_Suc_1)
    moreover have "k - 1 \<le> length (tl ?s2)"
      using k by (simp only: length_tl) arith
    ultimately show "\<not> starts_with_ci (js ''name'') (drop k ?s2)"
      using tl unfolding occurs_ci_def by metis
  qed
  from node_line_first [OF nolt sp lt gt tok ds(1) ds' tail' name_last]
  obtain caps where "search NODE_REGEXP (pre @ ?s2) = Some caps"
    "map_of caps 1 = Some tok" "map_of caps 2 = Some ds" "map_of caps 4 = fd"
    by blast
  then show ?thesis by (simp add: parseNode_def)
qed

text \<open>
  What the listing decoder does do. A payload whose first byte is none of the three
  binary response opcodes is read as UTF-8 text and split at line feeds; the result is,
  in the order of the lines and with repetitions kept, one entry for every line that
  \<open>NODE_REGEXP\<close> matches, built from the captured name, port and, when the fd clause
  is there, fd; lines that do not match, blank ones among them, are left out, and
  decoding never fails. For a listing joined from ASCII lines as the tests join it, the
  entries are those of the lines, line by line. A line of the shape the daemon prints
  (anything, \<open>name\<close>, blanks, the name with or without \<open><\<close> and \<open>>\<close> around it,
  \<open> at port \<close>, digits, and possibly \<open>, fd = \<close> and digits) gives the name without
  the brackets, the port, and the fd exactly when the fd clause is there, provided the
  letters \<open>name\<close> do not occur again inside the name itself.
\<close>

theorem decode_text_listing:
  assumes "buf = [] \<or> (uint (hd buf) \<noteq> ALIVE_RESP \<and> uint (hd buf) \<noteq> ALIVE2_X_RESP
                          \<and> uint (hd buf) \<noteq> PORT2_RESP)"
  shows "decode buf = Inr (DNodeList (List.map_filter parseNode (split_lines (utf8_decode buf))))
     \<and> (\<forall>line. parseNode line = None \<longleftrightarrow> search NODE_REGEXP line = None)
     \<and> (\<forall>line caps. search NODE_REGEXP line = Some caps \<longrightarrow>
           (\<exists>n p. map_of caps 1 = Some n \<and> map_of caps 2 = Some p
              \<and> parseNode line = Some \<lparr>entry_name = n, entry_port = digits_value p,
                                        entry_fd = map_option digits_value (map_of caps 4)\<rparr>))
     \<and> (\<forall>nodes. buf = createNamesOrDumpResp nodes \<and> (\<forall>l \<in> set nodes. ascii_line l) \<longrightarrow>
           decode buf = Inr (DNodeList (List.map_filter parseNode nodes)))
     \<and> (\<forall>pre sp lt tok gt ds tail fd.
           (\<forall>c \<in> set (pre @ sp). \<not> is_line_terminator c)
           \<and> (\<forall>c \<in> set sp. is_white_space c)
           \<and> (lt = [] \<or> lt = [0x3C]) \<and> (gt = [] \<or> gt = [0x3E])
           \<and> tok \<noteq> [] \<and> (\<forall>c \<in> set tok. \<not> is_white_space c \<and> c \<noteq> 0x3E \<and> c \<noteq> 0x3C)
           \<and> \<not> occurs_ci (js ''name'') tok
           \<and> ds \<noteq> [] \<and> (\<forall>c \<in> set ds. 0x30 \<le> c \<and> c \<le> 0x39)
           \<and> ((tail = [] \<and> fd = None)
                \<or> (\<exists>fs. fs \<noteq> [] \<and> (\<forall>c \<in> set fs. 0x30 \<le> c \<and> c \<le> 0x39)
                      \<and> tail = js '', fd = '' @ fs \<and> fd = Some fs))
           \<longrightarrow>
           parseNode (pre @ js ''name'' @ sp @ lt @ tok @ gt @ js '' at port '' @ ds @ tail)
             = Some \<lparr>entry_name = tok, entry_port = digits_value ds,
                     entry_fd = map_option digits_value fd\<rparr>)"
proof (intro conjI allI impI)
  show "decode buf = Inr (DNodeList (List.map_filter parseNode (split_lines (utf8_decode buf))))"
    using assms by (rule decode_text)
next
  fix line show "parseNode line = None \<longleftrightarrow> search NODE_REGEXP line = None"
    by (rule parseNode_None_iff)
next
  fix line caps assume "search NODE_REGEXP line = Some caps"
  then show "\<exists>n p. map_of caps 1 = Some n \<and> map_of caps 2 = Some p
              \<and> parseNode line = Some \<lparr>entry_name = n, entry_port = digits_value p,
                                        entry_fd = map_option digits_value (map_of caps 4)\<rparr>"
    by (rule parseNode_Some)
next
  fix nodes assume a: "buf = createNamesOrDumpResp nodes \<and> (\<forall>l \<in> set nodes. ascii_line l)"
  then show "decode buf = Inr (DNodeList (List.map_filter parseNode nodes))"
    using assms decode_createNamesOrDumpResp [of nodes] by simp
next
  fix pre sp lt tok gt ds tail :: jsstring and fd :: "jsstring option"
  assume "(\<forall>c \<in> set (pre @ sp). \<not> is_line_terminator c)
           \<and> (\<forall>c \<in> set sp. is_white_space c)
           \<and> (lt = [] \<or> lt = [0x3C]) \<and> (gt = [] \<or> gt = [0x3E])
           \<and> tok \<noteq> [] \<and> (\<forall>c \<in> set tok. \<not> is_white_space c \<and> c \<noteq> 0x3E \<and> c \<noteq> 0x3C)
           \<and> \<not> occurs_ci (js ''name'') tok
           \<and> ds \<noteq> [] \<and> (\<forall>c \<in> set ds. 0x30 \<le> c \<and> c \<le> 0x39)
           \<and> ((tail = [] \<and> fd = None)
                \<or> (\<exists>fs. fs \<noteq> [] \<and> (\<forall>c \<in> set fs. 0x30 \<le> c \<and> c \<le> 0x39)
                      \<and> tail = js '', fd = '' @ fs \<and> fd = Some fs))"
  then show "parseNode (pre @ js ''name'' @ sp @ lt @ tok @ gt @ js '' at port '' @ ds @ tail)
               = Some \<lparr>entry_name = tok, entry_port = digits_value ds,
                       entry_fd = map_option digits_value fd\<rparr>"
    by (elim conjE) (rule parseNode_listing_line; assumption)
qed


text \<open>
  The listings of the tests, as code units: \<open>name test at port 342\<close>,
  \<open>name llool at port 456\<close>, \<open>name hehehe at port 596\<close>, the dump line
  \<open>name test at port 342, fd = 5\<close>, a line that is one blank, and a listing that
  repeats a line around a blank and an empty one; then a line as \<open>epmd -d\<close> prints it.
\<close>

theorem decode_text_listing_witness:
  "decode (createNamesOrDumpResp
     [[110, 97, 109, 101, 32, 116, 101, 115, 116, 32, 97, 116, 32, 112, 111, 114, 116, 32, 51, 52,
      50],
      [110, 97, 109, 101, 32, 108, 108, 111, 111, 108, 32, 97, 116, 32, 112, 111, 114, 116, 32, 52,
      53, 54],
      [110, 97, 109, 101, 32, 104, 101, 104, 101, 104, 101, 32, 97, 116, 32, 112, 111, 114, 116, 32,
      53, 57, 54]])
   = Inr (DNodeList
       [\<lparr>entry_name = [116, 101, 115, 116], entry_port = 342, entry_fd = None\<rparr>,
        \<lparr>entry_name = [108, 108, 111, 111, 108], entry_port = 456, entry_fd = None\<rparr>,
        \<lparr>entry_name = [104, 101, 104, 101, 104, 101], entry_port = 596, entry_fd = None\<rparr>]) \<and>
   decode (createNamesOrDumpResp
     [[110, 97, 109, 101, 32, 116, 101, 115, 116, 32, 97, 116, 32, 112, 111, 114, 116, 32, 51, 52,
      50, 44, 32, 102, 100, 32, 61, 32, 53]])
   = Inr (DNodeList [\<lparr>entry_name = [116, 101, 115, 116], entry_port = 342, entry_fd = Some 5\<rparr>]) \<and>
   decode (createNamesOrDumpResp [[32]]) = Inr (DNodeList []) \<and>
   decode (createNamesOrDumpResp
     [[110, 97, 109, 101, 32, 116, 101, 115, 116, 32, 97, 116, 32, 112, 111, 114, 116, 32, 51, 52,
      50], [32], [],
      [110, 97, 109, 101, 32, 116, 101, 115, 116, 32, 97, 116, 32, 112, 111, 114, 116, 32, 51, 52,
      50]])
   = Inr (DNodeList
       [\<lparr>entry_name = [116, 101, 115, 116], entry_port = 342, entry_fd = None\<rparr>,
        \<lparr>entry_name = [116, 101, 115, 116], entry_port = 342, entry_fd = None\<rparr>]) \<and>
   parseNode (js ''active name     <foo> at port 8599, fd = 7'')
     = Some \<lparr>entry_name = js ''foo'', entry_port = 8599, entry_fd = Some 7\<rparr>"
proof -
  let ?l1 = "[110, 97, 109, 101, 32, 116, 101, 115, 116, 32, 97, 116, 32, 112, 111, 114, 116, 32, 51, 52,
      50] :: jsstring"
  let ?l2 = "[110, 97, 109, 101, 32, 108, 108, 111, 111, 108, 32, 97, 116, 32, 112, 111, 114, 116, 32, 52,
      53, 54] :: jsstring"
  let ?l3 = "[110, 97, 109, 101, 32, 104, 101, 104, 101, 104, 101, 32, 97, 116, 32, 112, 111, 114, 116, 32,
      53, 57, 54] :: jsstring"
  let ?d1 = "[110, 97, 109, 101, 32, 116, 101, 115, 116, 32, 97, 116, 32, 112, 111, 114, 116, 32, 51, 52,
      50, 44, 32, 102, 100, 32, 61, 32, 53] :: jsstring"
  note t = decode_text_listing
    [THEN conjunct2, THEN conjunct2, THEN conjunct2, THEN conjunct1, rule_format]
  have a: "decode (createNamesOrDumpResp [?l1, ?l2, ?l3])
             = Inr (DNodeList (List.map_filter parseNode [?l1, ?l2, ?l3]))"
    by (rule t [of _ "[?l1, ?l2, ?l3]"])
      (simp_all add: createNamesOrDumpResp_examples ascii_line_def constants_defs)
  have b: "decode (createNamesOrDumpResp [?d1])
             = Inr (DNodeList (List.map_filter parseNode [?d1]))"
    by (rule t [of _ "[?d1]"])
      (simp_all add: createNamesOrDumpResp_examples ascii_line_def constants_defs)
  have c: "decode (createNamesOrDumpResp [[32]])
             = Inr (DNodeList (List.map_filter parseNode [[32]]))"
    by (rule t [of _ "[[32]]"])
      (simp_all add: createNamesOrDumpResp_examples ascii_line_def constants_defs)
  have d: "decode (createNamesOrDumpResp [?l1, [32], [], ?l1])
             = Inr (DNodeList (List.map_filter parseNode [?l1, [32], [], ?l1]))"
    by (rule t [of _ "[?l1, [32], [], ?l1]"])
      (simp_all add: createNamesOrDumpResp_examples ascii_line_def constants_defs)
  note u = decode_text_listing
    [of "[]", THEN conjunct2, THEN conjunct2, THEN conjunct2, THEN conjunct2, rule_format,
     where pre = "js ''active ''" and sp = "js ''     ''" and lt = "[0x3C]"
       and tok = "js ''foo''" and gt = "[0x3E]" and ds = "js ''8599''"
       and tail = "js '', fd = 7''" and fd = "Some (js ''7'')"]
  have e0: "parseNode (js ''active '' @ js ''name'' @ js ''     '' @ [0x3C] @ js ''foo'' @ [0x3E]
                   @ js '' at port '' @ js ''8599'' @ js '', fd = 7'')
          = Some \<lparr>entry_name = js ''foo'', entry_port = digits_value (js ''8599''),
                  entry_fd = map_option digits_value (Some (js ''7''))\<rparr>"
  proof (rule u)
    show "[] = [] \<or> (uint (hd []) \<noteq> ALIVE_RESP \<and> uint (hd []) \<noteq> ALIVE2_X_RESP
                          \<and> uint (hd []) \<noteq> PORT2_RESP)"
      by simp
    have "\<not> occurs_ci (js ''name'') (js ''foo'')"
      by (simp add: js_def occurs_ci_Cons occurs_ci_Nil starts_with_ci_def)
    moreover have "js '', fd = 7'' = js '', fd = '' @ js ''7''"
      by (simp add: js_def)
    ultimately show "(\<forall>c \<in> set (js ''active '' @ js ''     ''). \<not> is_line_terminator c)
           \<and> (\<forall>c \<in> set (js ''     ''). is_white_space c)
           \<and> ([0x3C] = [] \<or> [0x3C] = [0x3C :: 16 word]) \<and> ([0x3E] = [] \<or> [0x3E] = [0x3E :: 16 word])
           \<and> js ''foo'' \<noteq> [] \<and> (\<forall>c \<in> set (js ''foo''). \<not> is_white_space c \<and> c \<noteq> 0x3E \<and> c \<noteq> 0x3C)
           \<and> \<not> occurs_ci (js ''name'') (js ''foo'')
           \<and> js ''8599'' \<noteq> [] \<and> (\<forall>c \<in> set (js ''8599''). 0x30 \<le> c \<and> c \<le> 0x39)
           \<and> ((js '', fd = 7'' = [] \<and> Some (js ''7'') = None)
                \<or> (\<exists>fs. fs \<noteq> [] \<and> (\<forall>c \<in> set fs. 0x30 \<le> c \<and> c \<le> 0x39)
                      \<and> js '', fd = 7'' = js '', fd = '' @ fs \<and> Some (js ''7'') = Some fs))"
      by (simp add: js_def is_line_terminator_def is_white_space_def)
  qed
  then have e: "parseNode (js ''active name     <foo> at port 8599, fd = 7'')
                  = Some \<lparr>entry_name = js ''foo'', entry_port = 8599, entry_fd = Some 7\<rparr>"
    by (simp add: js_def digits_value_def)
  show ?thesis
    by (simp only: a b c d e List.map_filter_simps parseNode_examples parseNode_more_examples
        parseNode_empty option.case simp_thms)
qed

text \<open>
  C4. The listing decoder is to return, for every line \<open>name <token> at port <digits>\<close>
  (optionally followed by \<open>, fd = <digits>\<close>), an entry whose name is the token with
  the optional \<open><\<close> and \<open>>\<close> stripped. \<open>NODE_REGEXP\<close> begins with a greedy \<open>.*\<close>, so
  it finds the keyword \<open>name\<close> at its last occurrence in the line, and a node whose own
  name contains the letters \<open>name\<close> loses everything up to and including them: the line
  \<open>name nameserver at port 5\<close> gives the name \<open>server\<close>, the dump line
  \<open>name <nameserver> at port 5, fd = 7\<close> gives \<open>server\<close> as well, and
  \<open>name hostname1 at port 4369\<close> gives \<open>1\<close>. Port and fd are read as they stand.
\<close>

theorem node_name_cut_at_inner_keyword:
  "createNamesOrDumpResp [js ''name nameserver at port 5'']
     = [110, 97, 109, 101, 32, 110, 97, 109, 101, 115, 101, 114, 118, 101, 114, 32, 97, 116,
        32, 112, 111, 114, 116, 32, 53]
   \<and> decode (createNamesOrDumpResp [js ''name nameserver at port 5''])
       = Inr (DNodeList [\<lparr>entry_name = js ''server'', entry_port = 5, entry_fd = None\<rparr>])
   \<and> js ''server'' \<noteq> js ''nameserver''
   \<and> decode (createNamesOrDumpResp [js ''name <nameserver> at port 5, fd = 7''])
       = Inr (DNodeList [\<lparr>entry_name = js ''server'', entry_port = 5, entry_fd = Some 7\<rparr>])
   \<and> decode (createNamesOrDumpResp [js ''name hostname1 at port 4369''])
       = Inr (DNodeList [\<lparr>entry_name = js ''1'', entry_port = 4369, entry_fd = None\<rparr>])"
  by code_simp

section \<open>Properties of the dispatcher\<close>

lemma TYPE_EVENT_MAP_simps:
  "TYPE_EVENT_MAP 121 = Some ''alive''" "TYPE_EVENT_MAP 118 = Some ''alive''"
  "TYPE_EVENT_MAP 119 = Some ''node''"
  by (simp_all add: TYPE_EVENT_MAP_def constants_defs)

lemma decode_alive_example: "decode [121, 0, 0, 1] = Inr (DResponse 121 (AliveData [0, 1]))"
  by code_simp

lemma decode_alive2x_example:
  "decode [118, 0, 0, 0, 0, 1] = Inr (DResponse 118 (AliveData [0, 0, 0, 1]))"
  by code_simp

lemma decode_alive_error_example: "decode [121, 1, 0, 1] = Inl (ProtocolStatusError 121 1)"
  by code_simp

lemma decode_port2_example:
  "decode [119, 0, 5, 57, 77, 0, 0, 6, 0, 5, 0, 7, 116, 101, 115, 116, 105, 110, 103, 0, 0]
     = Inr (DResponse 119 (NodeData
         \<lparr>data_port = 1337, data_nodeType = 77, data_protocol = 0, data_highestVersion = 6,
          data_lowestVersion = 5, data_name = [116, 101, 115, 116, 105, 110, 103],
          data_extra = []\<rparr>))"
  by code_simp

lemma decode_names_example:
  "decode [110, 97, 109, 101, 32, 116, 101, 115, 116, 32, 97, 116, 32, 112, 111, 114, 116, 32,
           51, 52, 50]
     = Inr (DNodeList [\<lparr>entry_name = [116, 101, 115, 116], entry_port = 342, entry_fd = None\<rparr>])"
  by code_simp

text \<open>
  C7. Whatever the decoder is, \<open>_onData\<close> turns its result into exactly one event and
  changes nothing else: a response with code ALIVE_RESP or ALIVE2_X_RESP is emitted as
  \<open>alive\<close>, one with code PORT2_RESP as \<open>node\<close>, a node list (which has no code) as
  \<open>nodeinfo\<close>, and a thrown error as \<open>error\<close> with the error as its argument. The
  response is passed on as it was decoded.
\<close>

theorem onData_dispatch:
  "(dec dat = Inr (DResponse k x) \<and> (k = ALIVE_RESP \<or> k = ALIVE2_X_RESP) \<longrightarrow>
      Client_onData dec c dat
        = c\<lparr>emitted := emitted c @ [(Some ''alive'', Response (DResponse k x))]\<rparr>)
   \<and> (dec dat = Inr (DResponse PORT2_RESP x) \<longrightarrow>
      Client_onData dec c dat
        = c\<lparr>emitted := emitted c @ [(Some ''node'', Response (DResponse PORT2_RESP x))]\<rparr>)
   \<and> (dec dat = Inr (DNodeList es) \<longrightarrow>
      Client_onData dec c dat
        = c\<lparr>emitted := emitted c @ [(Some ''nodeinfo'', Response (DNodeList es))]\<rparr>)
   \<and> (dec dat = Inl e \<longrightarrow>
      Client_onData dec c dat = c\<lparr>emitted := emitted c @ [(Some ''error'', Failure e)]\<rparr>)"
  by (auto simp: Client_onData_def emit_def TYPE_EVENT_MAP_simps constants_defs)

theorem onData_dispatch_witness:
  "Client_onData decode \<lparr>client = None, emitted = []\<rparr> [121, 0, 0, 1]
     = \<lparr>client = None,
        emitted = [(Some ''alive'', Response (DResponse 121 (AliveData [0, 1])))]\<rparr> \<and>
   Client_onData decode \<lparr>client = None, emitted = []\<rparr> [118, 0, 0, 0, 0, 1]
     = \<lparr>client = None,
        emitted = [(Some ''alive'', Response (DResponse 118 (AliveData [0, 0, 0, 1])))]\<rparr> \<and>
   Client_onData decode \<lparr>client = None, emitted = []\<rparr>
       [119, 0, 5, 57, 77, 0, 0, 6, 0, 5, 0, 7, 116, 101, 115, 116, 105, 110, 103, 0, 0]
     = \<lparr>client = None,
        emitted = [(Some ''node'', Response (DResponse 119 (NodeData
          \<lparr>data_port = 1337, data_nodeType = 77, data_protocol = 0, data_highestVersion = 6,
           data_lowestVersion = 5, data_name = [116, 101, 115, 116, 105, 110, 103],
           data_extra = []\<rparr>)))]\<rparr> \<and>
   Client_onData decode \<lparr>client = None, emitted = []\<rparr>
       [110, 97, 109, 101, 32, 116, 101, 115, 116, 32, 97, 116, 32, 112, 111, 114, 116, 32,
        51, 52, 50]
     = \<lparr>client = None,
        emitted = [(Some ''nodeinfo'', Response (DNodeList
          [\<lparr>entry_name = [116, 101, 115, 116], entry_port = 342, entry_fd = None\<rparr>]))]\<rparr> \<and>
   Client_onData decode \<lparr>client = None, emitted = []\<rparr> [121, 1, 0, 1]
     = \<lparr>client = None,
        emitted = [(Some ''error'', Failure (ProtocolStatusError 121 1))]\<rparr>"
proof -
  let ?c = "\<lparr>client = None, emitted = []\<rparr>"
  note a = onData_dispatch [of decode "[121, 0, 0, 1]" 121 "AliveData [0, 1]" ?c]
  note b = onData_dispatch [of decode "[118, 0, 0, 0, 0, 1]" 118 "AliveData [0, 0, 0, 1]" ?c]
  note n = onData_dispatch [of decode
      "[119, 0, 5, 57, 77, 0, 0, 6, 0, 5, 0, 7, 116, 101, 115, 116, 105, 110, 103, 0, 0]"
      119 "NodeData \<lparr>data_port = 1337, data_nodeType = 77, data_protocol = 0,
             data_highestVersion = 6, data_lowestVersion = 5,
             data_name = [116, 101, 115, 116, 105, 110, 103], data_extra = []\<rparr>" ?c]
  note l = onData_dispatch [of decode
      "[110, 97, 109, 101, 32, 116, 101, 115, 116, 32, 97, 116, 32, 112, 111, 114, 116, 32,
        51, 52, 50]" _ _ ?c
      "[\<lparr>entry_name = [116, 101, 115, 116], entry_port = 342, entry_fd = None\<rparr>]"]
  note e = onData_dispatch [of decode "[121, 1, 0, 1]" _ _ ?c _ "ProtocolStatusError 121 1"]
  show ?thesis
    using a b n l e
    by (simp add: decode_alive_example decode_alive2x_example decode_alive_error_example
        decode_port2_example decode_names_example constants_defs)
qed

lemma decode_range:
  "(\<exists>e. decode buf = Inl e)
   \<or> (\<exists>k x. decode buf = Inr (DResponse k x) \<and> (k = ALIVE_RESP \<or> k = ALIVE2_X_RESP \<or> k = PORT2_RESP))
   \<or> (\<exists>es. decode buf = Inr (DNodeList es))"
proof (cases buf)
  case Nil
  then show ?thesis by (simp add: decode_def decodeNodeInfo_def)
next
  case (Cons b bs)
  show ?thesis
  proof (cases "uint b = ALIVE_RESP \<or> uint b = ALIVE2_X_RESP")
    case True
    then show ?thesis using Cons
      by (cases bs) (auto simp: decode_def decodeAliveResp_def readUInt8_def)
  next
    case False
    show ?thesis
    proof (cases "uint b = PORT2_RESP")
      case True
      with False Cons have d: "decode buf = decodePort2Resp buf"
        by (simp add: decode_def)
      have "readUInt8 buf 0 = Inr PORT2_RESP"
        using True Cons by (simp add: readUInt8_def)
      then have "(\<exists>e. decodePort2Resp buf = Inl e)
                 \<or> (\<exists>x. decodePort2Resp buf = Inr (DResponse PORT2_RESP x))"
        unfolding decodePort2Resp_def
        by (auto simp: andThen_def split: sum.splits)
      with d show ?thesis by auto
    next
      case no: False
      with False Cons show ?thesis by (simp add: decode_def decodeNodeInfo_def)
    qed
  qed
qed

lemma onData_false: "dec dat = Inr DFalse \<Longrightarrow> Client_onData dec c dat = c"
  by (simp add: Client_onData_def)

lemma onData_decode_one_event:
  "\<exists>ev. Client_onData decode c dat = c\<lparr>emitted := emitted c @ [ev]\<rparr>
     \<and> fst ev \<in> {Some ''alive'', Some ''node'', Some ''nodeinfo'', Some ''error''}"
proof -
  consider e where "decode dat = Inl e"
    | k x where "decode dat = Inr (DResponse k x)" "k = ALIVE_RESP \<or> k = ALIVE2_X_RESP"
    | x where "decode dat = Inr (DResponse PORT2_RESP x)"
    | es where "decode dat = Inr (DNodeList es)"
    using decode_range [of dat] by blast
  then show ?thesis
  proof cases
    case 1
    then have "Client_onData decode c dat
                 = c\<lparr>emitted := emitted c @ [(Some ''error'', Failure e)]\<rparr>"
      by (simp add: Client_onData_def emit_def)
    then show ?thesis by (intro exI [of _ "(Some ''error'', Failure e)"]) simp
  next
    case 2
    then have "Client_onData decode c dat
                 = c\<lparr>emitted := emitted c @ [(Some ''alive'', Response (DResponse k x))]\<rparr>"
      by (auto simp: Client_onData_def emit_def TYPE_EVENT_MAP_simps constants_defs)
    then show ?thesis
      by (intro exI [of _ "(Some ''alive'', Response (DResponse k x))"]) simp
  next
    case 3
    then have "Client_onData decode c dat
                 = c\<lparr>emitted := emitted c @ [(Some ''node'', Response (DResponse PORT2_RESP x))]\<rparr>"
      by (simp add: Client_onData_def emit_def TYPE_EVENT_MAP_simps constants_defs)
    then show ?thesis
      by (intro exI [of _ "(Some ''node'', Response (DResponse PORT2_RESP x))"]) simp
  next
    case 4
    then have "Client_onData decode c dat
                 = c\<lparr>emitted := emitted c @ [(Some ''nodeinfo'', Response (DNodeList es))]\<rparr>"
      by (simp add: Client_onData_def emit_def)
    then show ?thesis
      by (intro exI [of _ "(Some ''nodeinfo'', Response (DNodeList es))"]) simp
  qed
qed

end
